theory Spec2Isabelle
  imports Main "HOL-Library.Sublist"
begin

section \<open>The auto-expand content script (content.js) as an event-driven state machine\<close>

text \<open>
  The script runs on a single event loop. Its module variables, together with the host
  structures it programs (the timer table, the idle-callback queue, the observers'
  subscriptions, the clock, the page), form one state record; every callback of the source
  is a function on that record, and the host delivering a callback is a step of the
  machine. What the script does to the outside (the activation primitive, the console) and
  what the host tells it (visibility crossings, timer firings) is appended to a trace.
\<close>

subsection \<open>The page\<close>

type_synonym elem = nat

text \<open>
  The attributes of an element that the script reads. \<open>styleDisplay\<close> and
  \<open>styleVisibility\<close> are the inline \<open>button.style\<close> values read by content.js;
  the computed style, the layout box and \<open>aria-hidden\<close> are read only by the earlier
  variant of the script. \<open>clickThrows\<close> says whether the activation primitive
  \<open>button.click()\<close> raises on the element.
\<close>

record node =
  isConnected :: bool
  tagName :: string
  testid :: "string option"
  roleAttr :: "string option"
  styleDisplay :: string
  styleVisibility :: string
  textContent :: string
  disabled :: bool
  parentElement :: "elem option"
  clickThrows :: bool
  ariaHidden :: bool
  computedDisplay :: string
  computedVisibility :: string
  computedOpacity :: string
  rectWidth :: int
  rectHeight :: int

text \<open>
  A snapshot of the tree: the attributes of each element, the elements of the document in
  traversal order (what \<open>document.querySelectorAll\<close> walks) and the descendants of each
  node (what \<open>node.querySelector\<close> walks).
\<close>

record dom =
  nodes :: "elem \<Rightarrow> node"
  documentOrder :: "elem list"
  subtree :: "elem \<Rightarrow> elem list"

subsection \<open>Configuration\<close>

definition clickDelay :: nat where
  "clickDelay = 300"

definition debounceDelay :: nat where
  "debounceDelay = 200"

definition maxProcessPerBatch :: nat where
  "maxProcessPerBatch = 5"

definition navigationDelay :: nat where
  "navigationDelay = 800"

definition initialScanDelay :: nat where
  "initialScanDelay = 1000"

definition backupPeriod :: nat where
  "backupPeriod = 5000"

definition showMoreTestid :: string where
  "showMoreTestid = ''tweet-text-show-more-link''"

subsection \<open>The state\<close>

text \<open>
  The callbacks handed to \<open>setTimeout\<close> and \<open>setInterval\<close>. \<open>DebounceScan\<close> and
  \<open>NavScan\<close> are both \<open>findNewButtons\<close>; the tag records which call scheduled it.
\<close>

datatype callback = InitialScan | DebounceScan | NavScan | Click elem | Backup

datatype logmsg = LogInitializing | LogFound nat | LogInitComplete | LogExpanded | ErrClick

text \<open>
  The trace: \<open>Clicked e\<close> is an invocation of \<open>e.click()\<close>; \<open>Crossed e\<close> is an
  intersection entry for e with \<open>isIntersecting\<close> received by the callback;
  \<open>Scanned cs\<close> is a run of \<open>findNewButtons\<close> that accepted the candidates cs;
  \<open>Fired t cb\<close> is the host running timer callback cb at time t.
\<close>

datatype obs = Clicked elem | Crossed elem | Scanned "elem list" | Fired nat callback
  | Console logmsg

record entry =
  target :: elem
  isIntersecting :: bool

datatype addedNode = ElementNode elem | OtherNode

record mutation =
  mtype :: string
  addedNodes :: "addedNode list"

text \<open>
  \<open>observer\<close> is \<open>None\<close> for null and \<open>Some b\<close> for a MutationObserver that is
  observing iff b; \<open>intersectionObserver\<close> is \<open>None\<close> for null and \<open>Some T\<close> for an
  IntersectionObserver with the targets T. A timer is (id, due time, callback).
\<close>

record state =
  processedButtons :: "elem set"
  pendingButtons :: "elem list"
  debounceTimer :: "nat option"
  isProcessing :: bool
  observer :: "bool option"
  intersectionObserver :: "elem set option"
  currentUrl :: string
  navObserver :: bool
  awaitingReady :: bool
  timers :: "(nat \<times> nat \<times> callback) list"
  nextTimerId :: nat
  now :: nat
  idleCallbacks :: "elem list list"
  page :: dom
  href :: string
  trace :: "obs list"

definition emit :: "obs \<Rightarrow> state \<Rightarrow> state" where
  "emit x s = s\<lparr>trace := trace s @ [x]\<rparr>"

definition setTimeout :: "callback \<Rightarrow> nat \<Rightarrow> state \<Rightarrow> nat \<times> state" where
  "setTimeout cb d s =
     (nextTimerId s,
      s\<lparr>timers := timers s @ [(nextTimerId s, now s + d, cb)],
        nextTimerId := Suc (nextTimerId s)\<rparr>)"

definition clearTimeout :: "nat option \<Rightarrow> state \<Rightarrow> state" where
  "clearTimeout h s =
     (case h of None \<Rightarrow> s
      | Some i \<Rightarrow> s\<lparr>timers := filter (\<lambda>t. fst t \<noteq> i) (timers s)\<rparr>)"

subsection \<open>Validation\<close>

fun str_includes :: "string \<Rightarrow> string \<Rightarrow> bool" where
  "str_includes [] t = (t = [])"
| "str_includes (c # cs) t = (prefix t (c # cs) \<or> str_includes cs t)"

definition isValidShowMoreButton :: "state \<Rightarrow> elem \<Rightarrow> bool" where
  "isValidShowMoreButton s button =
     (let n = nodes (page s) button in
      if \<not> isConnected n \<or> button \<in> processedButtons s then False
      else if testid n \<noteq> Some showMoreTestid then False
      else if styleDisplay n = ''none'' \<or> styleVisibility n = ''hidden'' then False
      else if \<not> str_includes (textContent n) ''Show more'' then False
      else True)"

definition isTweetContainer :: "node \<Rightarrow> bool" where
  "isTweetContainer n =
     (testid n = Some ''tweet'' \<or> (tagName n = ''ARTICLE'' \<and> roleAttr n = Some ''article''))"

function walkUp :: "dom \<Rightarrow> elem option \<Rightarrow> nat \<Rightarrow> elem option" where
  "walkUp d current depth =
     (case current of
        None \<Rightarrow> None
      | Some c \<Rightarrow>
          if depth < 10 then
            (if isTweetContainer (nodes d c) then Some c
             else walkUp d (parentElement (nodes d c)) (depth + 1))
          else None)"
  by pat_completeness auto
termination
  by (relation "measure (\<lambda>(d, current, depth). 10 - depth)") auto

definition findTweetContainer :: "dom \<Rightarrow> elem \<Rightarrow> elem option" where
  "findTweetContainer d element = walkUp d (parentElement (nodes d element)) 0"

text \<open>The checks of the earlier variant of the script (\<open>isElementVisible\<close>).\<close>

definition isElementVisible :: "dom \<Rightarrow> elem \<Rightarrow> bool" where
  "isElementVisible d element =
     (let n = nodes d element in
      if \<not> isConnected n then False
      else computedDisplay n \<noteq> ''none'' \<and> computedVisibility n \<noteq> ''hidden''
        \<and> computedOpacity n \<noteq> ''0'' \<and> rectWidth n > 0 \<and> rectHeight n > 0
        \<and> \<not> disabled n \<and> \<not> ariaHidden n)"

subsection \<open>Dispatch\<close>

text \<open>
  The body of the \<open>try\<close> block of the click timer: the state it leaves and whether it
  raised. The \<open>catch\<close> logs and swallows the exception.
\<close>

definition clickTry :: "elem \<Rightarrow> state \<Rightarrow> state \<times> bool" where
  "clickTry button s =
     (let n = nodes (page s) button in
      if isConnected n \<and> \<not> disabled n then
        (if clickThrows n then (emit (Clicked button) s, True)
         else (emit (Console LogExpanded) (emit (Clicked button) s), False))
      else (s, False))"

definition clickCallback :: "elem \<Rightarrow> state \<Rightarrow> state" where
  "clickCallback button s =
     (case clickTry button s of
        (s1, True) \<Rightarrow> emit (Console ErrClick) s1
      | (s1, False) \<Rightarrow> s1)"

definition processButton :: "elem \<Rightarrow> state \<Rightarrow> state" where
  "processButton button s =
     (if \<not> isValidShowMoreButton s button then s
      else
        let s1 = s\<lparr>processedButtons := insert button (processedButtons s)\<rparr> in
        if findTweetContainer (page s1) button = None then s1
        else snd (setTimeout (Click button) clickDelay s1))"

subsection \<open>Visibility gate\<close>

definition onEntry :: "entry \<Rightarrow> state \<Rightarrow> state" where
  "onEntry en s =
     (let s0 = (if isIntersecting en then emit (Crossed (target en)) s else s) in
      if isIntersecting en \<and> target en \<in> set (pendingButtons s0) then
        processButton (target en)
          (s0\<lparr>pendingButtons := removeAll (target en) (pendingButtons s0)\<rparr>)
      else s0)"

definition intersectionCallback :: "entry list \<Rightarrow> state \<Rightarrow> state" where
  "intersectionCallback entries s = fold onEntry entries s"

definition setupIntersectionObserver :: "state \<Rightarrow> state" where
  "setupIntersectionObserver s =
     (case intersectionObserver s of
        Some T \<Rightarrow> s
      | None \<Rightarrow> s\<lparr>intersectionObserver := Some {}\<rparr>)"

subsection \<open>Batching\<close>

text \<open>
  The idle callback \<open>processFunction\<close> of a batch. \<open>observeButtons\<close> is its
  \<open>forEach\<close>; the flag says that \<open>intersectionObserver.observe\<close> was called on null and
  raised, which leaves \<open>isProcessing\<close> set.
\<close>

fun observeButtons :: "elem list \<Rightarrow> state \<Rightarrow> state \<times> bool" where
  "observeButtons [] s = (s, False)"
| "observeButtons (b # bs) s =
     (if isConnected (nodes (page s) b) then
        (case intersectionObserver s of
           None \<Rightarrow> (s, True)
         | Some T \<Rightarrow> observeButtons bs (s\<lparr>intersectionObserver := Some (insert b T)\<rparr>))
      else observeButtons bs s)"

definition processFunction :: "elem list \<Rightarrow> state \<Rightarrow> state" where
  "processFunction buttons s =
     (case observeButtons buttons s of
        (s1, True) \<Rightarrow> s1
      | (s1, False) \<Rightarrow> s1\<lparr>isProcessing := False\<rparr>)"

definition processPendingButtons :: "state \<Rightarrow> state" where
  "processPendingButtons s =
     (if isProcessing s then s
      else s\<lparr>isProcessing := True,
             pendingButtons := [],
             idleCallbacks := idleCallbacks s @ [take maxProcessPerBatch (pendingButtons s)]\<rparr>)"

subsection \<open>Scanning\<close>

definition matchesButtonSelector :: "node \<Rightarrow> bool" where
  "matchesButtonSelector n = (tagName n = ''BUTTON'' \<and> testid n = Some showMoreTestid)"

definition querySelectorAll :: "dom \<Rightarrow> elem list" where
  "querySelectorAll d = filter (\<lambda>e. matchesButtonSelector (nodes d e)) (documentOrder d)"

definition setAdd :: "elem \<Rightarrow> elem list \<Rightarrow> elem list" where
  "setAdd x xs = (if x \<in> set xs then xs else xs @ [x])"

text \<open>
  The loop of \<open>findNewButtons\<close>: the pending set and the accepted buttons so far (their
  number is \<open>newButtonCount\<close>).
\<close>

fun scanLoop :: "state \<Rightarrow> elem list \<Rightarrow> elem list \<times> elem list \<Rightarrow> elem list \<times> elem list" where
  "scanLoop s [] acc = acc"
| "scanLoop s (button # buttons) (pending, found) =
     (if button \<notin> processedButtons s \<and> isValidShowMoreButton s button
      then scanLoop s buttons (setAdd button pending, found @ [button])
      else scanLoop s buttons (pending, found))"

definition findNewButtons :: "state \<Rightarrow> nat \<times> state" where
  "findNewButtons s =
     (let (pending, found) = scanLoop s (querySelectorAll (page s)) (pendingButtons s, []);
          newButtonCount = length found;
          s1 = emit (Scanned found) (s\<lparr>pendingButtons := pending\<rparr>)
      in (newButtonCount, if newButtonCount > 0 then processPendingButtons s1 else s1))"

subsection \<open>Debouncer, change watcher, navigation\<close>

definition debouncedExpand :: "state \<Rightarrow> state" where
  "debouncedExpand s =
     (let s1 = clearTimeout (debounceTimer s) s;
          (i, s2) = setTimeout DebounceScan debounceDelay s1
      in s2\<lparr>debounceTimer := Some i\<rparr>)"

definition relevantNode :: "dom \<Rightarrow> addedNode \<Rightarrow> bool" where
  "relevantNode d a =
     (case a of
        OtherNode \<Rightarrow> False
      | ElementNode e \<Rightarrow>
          (case testid (nodes d e) of None \<Rightarrow> False | Some t \<Rightarrow> str_includes t ''tweet'')
          \<or> list_ex (\<lambda>x. matchesButtonSelector (nodes d x)) (subtree d e)
          \<or> isTweetContainer (nodes d e))"

definition shouldProcess :: "dom \<Rightarrow> mutation list \<Rightarrow> bool" where
  "shouldProcess d mutations =
     list_ex (\<lambda>m. mtype m = ''childList'' \<and> addedNodes m \<noteq> []
                  \<and> list_ex (relevantNode d) (addedNodes m)) mutations"

definition mutationCallback :: "mutation list \<Rightarrow> state \<Rightarrow> state" where
  "mutationCallback mutations s =
     (if shouldProcess (page s) mutations then debouncedExpand s else s)"

definition setupMutationObserver :: "state \<Rightarrow> state" where
  "setupMutationObserver s =
     (case observer s of
        Some b \<Rightarrow> s
      | None \<Rightarrow> s\<lparr>observer := Some True\<rparr>)"

definition handleNavigation :: "state \<Rightarrow> state" where
  "handleNavigation s =
     (if href s \<noteq> currentUrl s
      then snd (setTimeout NavScan navigationDelay (s\<lparr>currentUrl := href s\<rparr>))
      else s)"

subsection \<open>Lifecycle\<close>

definition backupCallback :: "state \<Rightarrow> state" where
  "backupCallback s =
     snd (findNewButtons
       (s\<lparr>pendingButtons :=
            filter (\<lambda>b. isConnected (nodes (page s) b)) (pendingButtons s)\<rparr>))"

definition initialize :: "state \<Rightarrow> state" where
  "initialize s =
     (let s1 = emit (Console LogInitializing) s;
          s2 = setupIntersectionObserver s1;
          s3 = setupMutationObserver s2;
          s4 = snd (setTimeout InitialScan initialScanDelay s3);
          s5 = s4\<lparr>navObserver := True\<rparr>;
          s6 = snd (setTimeout Backup backupPeriod s5)
      in emit (Console LogInitComplete) s6)"

definition cleanup :: "state \<Rightarrow> state" where
  "cleanup s =
     (let s1 = s\<lparr>observer := map_option (\<lambda>b. False) (observer s)\<rparr>;
          s2 = s1\<lparr>intersectionObserver := map_option (\<lambda>T. {}) (intersectionObserver s1)\<rparr>
      in clearTimeout (debounceTimer s2) s2)"

text \<open>
  The state once the script has been evaluated: \<open>loading\<close> is
  \<open>document.readyState === 'loading'\<close>, in which case \<open>initialize\<close> waits for
  DOMContentLoaded.
\<close>

definition boot :: "bool \<Rightarrow> dom \<Rightarrow> string \<Rightarrow> state" where
  "boot loading d url =
     (let s0 = \<lparr>processedButtons = {}, pendingButtons = [], debounceTimer = None,
                isProcessing = False, observer = None, intersectionObserver = None,
                currentUrl = url, navObserver = False, awaitingReady = loading,
                timers = [], nextTimerId = 1, now = 0, idleCallbacks = [],
                page = d, href = url, trace = []\<rparr>
      in if loading then s0 else initialize s0)"

subsection \<open>The host: timers and events\<close>

definition runCallback :: "callback \<Rightarrow> state \<Rightarrow> state" where
  "runCallback cb s =
     (case cb of
        InitialScan \<Rightarrow> (case findNewButtons s of (found, s1) \<Rightarrow> emit (Console (LogFound found)) s1)
      | DebounceScan \<Rightarrow> snd (findNewButtons s)
      | NavScan \<Rightarrow> snd (findNewButtons s)
      | Click button \<Rightarrow> clickCallback button s
      | Backup \<Rightarrow> backupCallback s)"

text \<open>
  The host fires timer i once its due time has come: a timeout leaves the table, the
  interval is armed again one period later.
\<close>

definition fireTimer :: "nat \<Rightarrow> state \<Rightarrow> state" where
  "fireTimer i s =
     (case find (\<lambda>t. fst t = i) (timers s) of
        None \<Rightarrow> s
      | Some (j, due, cb) \<Rightarrow>
          if now s < due then s
          else
            let rest = filter (\<lambda>t. fst t \<noteq> i) (timers s);
                ts = (if cb = Backup then rest @ [(i, now s + backupPeriod, Backup)] else rest)
            in runCallback cb (emit (Fired (now s) cb) (s\<lparr>timers := ts\<rparr>)))"

datatype event =
    DOMContentLoaded
  | MutationRecords "mutation list"
  | BodyChildList
  | IntersectionEntries "entry list"
  | IdlePeriod
  | TimerFires nat
  | BeforeUnload
  | SetDocument dom
  | SetLocation string
  | Advance nat

text \<open>
  One step of the event loop. An observer's callback runs only while it observes: the
  mutation observer when connected, the intersection observer on the entries of its
  current targets.
\<close>

fun step :: "event \<Rightarrow> state \<Rightarrow> state" where
  "step DOMContentLoaded s =
     (if awaitingReady s then initialize (s\<lparr>awaitingReady := False\<rparr>) else s)"
| "step (MutationRecords ms) s =
     (if observer s = Some True then mutationCallback ms s else s)"
| "step BodyChildList s = (if navObserver s then handleNavigation s else s)"
| "step (IntersectionEntries es) s =
     (case intersectionObserver s of
        None \<Rightarrow> s
      | Some T \<Rightarrow>
          (case filter (\<lambda>en. target en \<in> T) es of
             [] \<Rightarrow> s
           | e # es' \<Rightarrow> intersectionCallback (e # es') s))"
| "step IdlePeriod s =
     (case idleCallbacks s of
        [] \<Rightarrow> s
      | buttons # rest \<Rightarrow> processFunction buttons (s\<lparr>idleCallbacks := rest\<rparr>))"
| "step (TimerFires i) s = fireTimer i s"
| "step BeforeUnload s = cleanup s"
| "step (SetDocument d) s = s\<lparr>page := d\<rparr>"
| "step (SetLocation u) s = s\<lparr>href := u\<rparr>"
| "step (Advance d) s = s\<lparr>now := now s + d\<rparr>"

definition run :: "event list \<Rightarrow> state \<Rightarrow> state" where
  "run evs s = fold step evs s"

text \<open>
  An idealised clock for timing properties: time passes one millisecond at a time, and in
  each millisecond the host fires every timer that has fallen due, in the order of the
  table. A burst is a sequence of debouncer signals separated by the given gaps.
\<close>

definition dueIds :: "state \<Rightarrow> nat list" where
  "dueIds s = map fst (filter (\<lambda>t. fst (snd t) \<le> now s) (timers s))"

definition tick :: "state \<Rightarrow> state" where
  "tick s = (let s1 = s\<lparr>now := Suc (now s)\<rparr> in fold fireTimer (dueIds s1) s1)"

fun elapse :: "nat \<Rightarrow> state \<Rightarrow> state" where
  "elapse 0 s = s"
| "elapse (Suc n) s = elapse n (tick s)"

fun burst :: "nat list \<Rightarrow> state \<Rightarrow> state" where
  "burst [] s = debouncedExpand s"
| "burst (g # gs) s = burst gs (elapse g (debouncedExpand s))"

subsection \<open>Notions used by the properties\<close>

text \<open>
  The candidates a scan accepts in a state: the buttons its loop has counted, which are the
  buttons of the query that pass the test of the loop.
\<close>

definition accepts :: "state \<Rightarrow> elem \<Rightarrow> bool" where
  "accepts s b = (b \<notin> processedButtons s \<and> isValidShowMoreButton s b)"

definition candidates :: "state \<Rightarrow> elem list" where
  "candidates s = snd (scanLoop s (querySelectorAll (page s)) (pendingButtons s, []))"

text \<open>
  The number of activations of e that have happened or are scheduled: its clicks in the
  trace plus its click timers in the table.
\<close>

definition clickLoad :: "elem \<Rightarrow> state \<Rightarrow> nat" where
  "clickLoad e s =
     count_list (trace s) (Clicked e) + length (filter (\<lambda>t. snd (snd t) = Click e) (timers s))"

definition onceInv :: "elem \<Rightarrow> state \<Rightarrow> bool" where
  "onceInv e s = (clickLoad e s \<le> (if e \<in> processedButtons s then 1 else 0))"

text \<open>Every click in a trace comes after a crossing of the same element.\<close>

definition orderly :: "obs list \<Rightarrow> bool" where
  "orderly tr = (\<forall>xs ys e. tr = xs @ Clicked e # ys \<longrightarrow> Crossed e \<in> set xs)"

definition gateInv :: "state \<Rightarrow> bool" where
  "gateInv s =
     (orderly (trace s)
      \<and> (\<forall>t \<in> set (timers s). \<forall>b. snd (snd t) = Click b \<longrightarrow> Crossed b \<in> set (trace s)))"

text \<open>
  The timer table is well formed: identifiers are unique and below the next one to be
  issued, and the debounce timer's identifier names the scheduled debounced rescan, if
  there is one.
\<close>

definition debounceInv :: "state \<Rightarrow> bool" where
  "debounceInv s =
     (distinct (map fst (timers s))
      \<and> (\<forall>t \<in> set (timers s). fst t < nextTimerId s
            \<and> ((snd (snd t) = DebounceScan) = (debounceTimer s = Some (fst t))))
      \<and> (\<forall>i. debounceTimer s = Some i \<longrightarrow> i < nextTimerId s))"

definition isDebounceTimer :: "nat \<times> nat \<times> callback \<Rightarrow> bool" where
  "isDebounceTimer t = (snd (snd t) = DebounceScan)"

definition isDebounceFiring :: "obs \<Rightarrow> bool" where
  "isDebounceFiring x = (case x of Fired t cb \<Rightarrow> cb = DebounceScan | _ \<Rightarrow> False)"

definition debounceFirings :: "state \<Rightarrow> obs list" where
  "debounceFirings s = filter isDebounceFiring (trace s)"

text \<open>The elements accepted by the scans that ran after the first n observations.\<close>

definition scannedSince :: "nat \<Rightarrow> state \<Rightarrow> elem set" where
  "scannedSince n s = {e. \<exists>cs. Scanned cs \<in> set (drop n (trace s)) \<and> e \<in> set cs}"

definition rescanInv :: "nat \<Rightarrow> elem set \<Rightarrow> state \<Rightarrow> bool" where
  "rescanInv n P s =
     (n \<le> length (trace s)
      \<and> set (pendingButtons s) \<union> (processedButtons s - P) \<subseteq> scannedSince n s)"



text \<open>The page is unloaded before DOMContentLoaded, then loads and changes after all.\<close>

definition tweetMutation :: mutation where
  "tweetMutation = \<lparr>mtype = ''childList'', addedNodes = [ElementNode 1]\<rparr>"

definition earlyUnload :: "event list" where
  "earlyUnload = [BeforeUnload, DOMContentLoaded, MutationRecords [tweetMutation]]"

subsection \<open>Example pages and sessions\<close>

definition articleNode :: node where
  "articleNode = \<lparr>isConnected = True, tagName = ''ARTICLE'', testid = Some ''tweet'',
     roleAttr = Some ''article'', styleDisplay = [], styleVisibility = [],
     textContent = ''A long post Show more'', disabled = False, parentElement = None,
     clickThrows = False, ariaHidden = False, computedDisplay = ''block'',
     computedVisibility = ''visible'', computedOpacity = ''1'', rectWidth = 600,
     rectHeight = 200\<rparr>"

definition buttonNode :: node where
  "buttonNode = \<lparr>isConnected = True, tagName = ''BUTTON'', testid = Some showMoreTestid,
     roleAttr = None, styleDisplay = [], styleVisibility = [],
     textContent = ''Show more'', disabled = False, parentElement = Some 0,
     clickThrows = False, ariaHidden = False, computedDisplay = ''inline'',
     computedVisibility = ''visible'', computedOpacity = ''1'', rectWidth = 80,
     rectHeight = 20\<rparr>"

text \<open>A page with one tweet (element 0) that holds the buttons 1 to n.\<close>

definition tweetPage :: "nat \<Rightarrow> dom" where
  "tweetPage n = \<lparr>nodes = (\<lambda>e. if e = 0 then articleNode else buttonNode),
     documentOrder = [0..<Suc n], subtree = (\<lambda>e. if e = 0 then [1..<Suc n] else [])\<rparr>"

text \<open>The same page with two buttons, where activating button 1 raises.\<close>

definition throwingPage :: dom where
  "throwingPage = \<lparr>nodes = (\<lambda>e. if e = 0 then articleNode
       else if e = 1 then buttonNode\<lparr>clickThrows := True\<rparr> else buttonNode),
     documentOrder = [0, 1, 2], subtree = (\<lambda>e. if e = 0 then [1, 2] else [])\<rparr>"

text \<open>
  A session up to the visibility release of the given entries: the initial scan, a
  navigation whose rescan runs before the idle callback, the idle callback, and the
  intersection callback.
\<close>

definition releaseSession :: "entry list \<Rightarrow> event list" where
  "releaseSession es =
     [Advance 1000, TimerFires 1, SetLocation ''https://x.com/b'', BodyChildList,
      Advance 800, TimerFires 3, IdlePeriod, IntersectionEntries es]"

definition crossing :: "elem \<Rightarrow> entry" where
  "crossing e = \<lparr>target = e, isIntersecting = True\<rparr>"

definition throwingState :: state where
  "throwingState =
     run (releaseSession [crossing 1, crossing 2] @ [Advance 300])
       (boot False throwingPage ''https://x.com/a'')"

text \<open>
  A page whose button 1 matches the signature but is disabled, hidden from assistive
  technology, transparent, without extent and hidden by the style sheet.
\<close>

definition hiddenPage :: dom where
  "hiddenPage = \<lparr>nodes = (\<lambda>e. if e = 0 then articleNode
       else buttonNode\<lparr>disabled := True, ariaHidden := True, computedDisplay := ''none'',
              computedVisibility := ''hidden'', computedOpacity := ''0'',
              rectWidth := 0, rectHeight := 0\<rparr>),
     documentOrder = [0, 1], subtree = (\<lambda>e. if e = 0 then [1] else [])\<rparr>"

definition hiddenState :: state where
  "hiddenState = boot False hiddenPage ''https://x.com/a''"

text \<open>The initial scan, its idle callback and the first backup scan.\<close>

definition rescanSession :: "event list" where
  "rescanSession = [Advance 1000, TimerFires 1, IdlePeriod, Advance 4000, TimerFires 2]"

definition rescanState :: state where
  "rescanState = run rescanSession (boot False (tweetPage 1) ''https://x.com/a'')"

definition releasedState :: state where
  "releasedState = run (releaseSession [crossing 1]) (boot False (tweetPage 1) ''https://x.com/a'')"

definition sevenPage :: dom where
  "sevenPage = \<lparr>nodes = (\<lambda>e. if e = 0 then articleNode else buttonNode),
     documentOrder = [0, 1, 2, 3, 4, 5, 6, 7],
     subtree = (\<lambda>e. if e = 0 then [1, 2, 3, 4, 5, 6, 7] else [])\<rparr>"

definition sevenState :: state where
  "sevenState = run [Advance 1000] (boot False sevenPage ''https://x.com/a'')"

text \<open>The state just before the visibility release: button 1 is pending and subscribed.\<close>

definition pendingState :: state where
  "pendingState = run (butlast (releaseSession [])) (boot False (tweetPage 1) ''https://x.com/a'')"

text \<open>
  A whole session on the page with one button: release, click, then a backup scan and a
  second crossing of the same button.
\<close>

definition onceSession :: "event list" where
  "onceSession =
     releaseSession [crossing 1]
       @ [Advance 300, TimerFires 4, Advance 5000, TimerFires 2, IntersectionEntries [crossing 1]]"

definition onceState :: state where
  "onceState = run onceSession (boot False (tweetPage 1) ''https://x.com/a'')"

text \<open>
  The state after the initial scan has admitted button 1 (its idle callback is queued), the
  events that follow it up to the release, and the state after the navigation rescan, which
  runs while the admission is still in flight.
\<close>

definition admittedState :: state where
  "admittedState = run [Advance 1000, TimerFires 1] (boot False (tweetPage 1) ''https://x.com/a'')"

definition laterEvents :: "event list" where
  "laterEvents =
     [SetLocation ''https://x.com/b'', BodyChildList, Advance 800, TimerFires 3, IdlePeriod,
      IntersectionEntries [crossing 1]]"

definition guardedState :: state where
  "guardedState = run (take 4 laterEvents) admittedState"

text \<open>
  Teardown while an admission is in flight, followed by the idle callback, a crossing, the
  click timer and the backup interval.
\<close>

definition afterUnload :: "event list" where
  "afterUnload =
     [BeforeUnload, IdlePeriod, IntersectionEntries [crossing 1], Advance 300, TimerFires 4,
      Advance 2900, TimerFires 2]"

section \<open>Properties\<close>

subsection \<open>The effect of a scan\<close>

lemma scanLoop_eq:
  "scanLoop s bs (p, f) = (fold setAdd (filter (accepts s) bs) p, f @ filter (accepts s) bs)"
  by (induction bs arbitrary: p f) (simp_all add: accepts_def)

lemma set_fold_setAdd: "set (fold setAdd cs p) = set p \<union> set cs"
  by (induction cs arbitrary: p) (auto simp: setAdd_def)

lemma candidates_filter: "candidates s = filter (accepts s) (querySelectorAll (page s))"
  by (simp add: candidates_def scanLoop_eq)

lemma findNewButtons_eq:
  "findNewButtons s =
     (length (candidates s),
      (if candidates s = [] then emit (Scanned (candidates s))
         (s\<lparr>pendingButtons := fold setAdd (candidates s) (pendingButtons s)\<rparr>)
       else processPendingButtons (emit (Scanned (candidates s))
         (s\<lparr>pendingButtons := fold setAdd (candidates s) (pendingButtons s)\<rparr>))))"
  by (simp add: findNewButtons_def scanLoop_eq candidates_filter)

lemma processPendingButtons_frame:
  "timers (processPendingButtons s) = timers s"
  "trace (processPendingButtons s) = trace s"
  "processedButtons (processPendingButtons s) = processedButtons s"
  "nextTimerId (processPendingButtons s) = nextTimerId s"
  "now (processPendingButtons s) = now s"
  "debounceTimer (processPendingButtons s) = debounceTimer s"
  "intersectionObserver (processPendingButtons s) = intersectionObserver s"
  "observer (processPendingButtons s) = observer s"
  "navObserver (processPendingButtons s) = navObserver s"
  "page (processPendingButtons s) = page s"
  by (simp_all add: processPendingButtons_def)

lemma findNewButtons_frame:
  "timers (snd (findNewButtons s)) = timers s"
  "trace (snd (findNewButtons s)) = trace s @ [Scanned (candidates s)]"
  "processedButtons (snd (findNewButtons s)) = processedButtons s"
  "nextTimerId (snd (findNewButtons s)) = nextTimerId s"
  "now (snd (findNewButtons s)) = now s"
  "debounceTimer (snd (findNewButtons s)) = debounceTimer s"
  "intersectionObserver (snd (findNewButtons s)) = intersectionObserver s"
  "observer (snd (findNewButtons s)) = observer s"
  "navObserver (snd (findNewButtons s)) = navObserver s"
  "page (snd (findNewButtons s)) = page s"
  by (simp_all add: findNewButtons_eq emit_def processPendingButtons_frame)

lemma findNewButtons_pending:
  "set (pendingButtons (snd (findNewButtons s))) \<subseteq> set (pendingButtons s) \<union> set (candidates s)"
  by (simp add: findNewButtons_eq emit_def processPendingButtons_def set_fold_setAdd)

lemma backupCallback_frame:
  "timers (backupCallback s) = timers s"
  "processedButtons (backupCallback s) = processedButtons s"
  "nextTimerId (backupCallback s) = nextTimerId s"
  "now (backupCallback s) = now s"
  "debounceTimer (backupCallback s) = debounceTimer s"
  "intersectionObserver (backupCallback s) = intersectionObserver s"
  "observer (backupCallback s) = observer s"
  "navObserver (backupCallback s) = navObserver s"
  "page (backupCallback s) = page s"
  by (simp_all add: backupCallback_def findNewButtons_frame)

lemma candidates_cong:
  "page s' = page s \<Longrightarrow> processedButtons s' = processedButtons s \<Longrightarrow> candidates s' = candidates s"
proof -
  assume "page s' = page s" "processedButtons s' = processedButtons s"
  then have "accepts s' = accepts s"
    by (auto simp: accepts_def isValidShowMoreButton_def fun_eq_iff)
  with \<open>page s' = page s\<close> show ?thesis by (simp add: candidates_filter)
qed

lemma backupCallback_trace:
  "trace (backupCallback s) = trace s @ [Scanned (candidates s)]"
proof -
  let ?s = "s\<lparr>pendingButtons := filter (\<lambda>b. isConnected (nodes (page s) b)) (pendingButtons s)\<rparr>"
  have "candidates ?s = candidates s" by (rule candidates_cong) simp_all
  then show ?thesis by (simp add: backupCallback_def findNewButtons_frame)
qed

lemma subset_Un_left_mono: "X \<subseteq> A \<union> C \<Longrightarrow> A \<subseteq> B \<Longrightarrow> X \<subseteq> B \<union> C"
  by blast

lemma backupCallback_pending:
  "set (pendingButtons (backupCallback s)) \<subseteq> set (pendingButtons s) \<union> set (candidates s)"
proof -
  let ?s = "s\<lparr>pendingButtons := filter (\<lambda>b. isConnected (nodes (page s) b)) (pendingButtons s)\<rparr>"
  have c: "candidates ?s = candidates s" by (rule candidates_cong) simp_all
  have "set (pendingButtons (backupCallback s)) \<subseteq> set (pendingButtons ?s) \<union> set (candidates ?s)"
    unfolding backupCallback_def by (rule findNewButtons_pending)
  then have a: "set (pendingButtons (backupCallback s)) \<subseteq> set (pendingButtons ?s) \<union> set (candidates s)"
    by (simp only: c)
  have b: "set (pendingButtons ?s) \<subseteq> set (pendingButtons s)" by simp
  show ?thesis by (rule subset_Un_left_mono[OF a b])
qed

subsection \<open>The effect of the idle callback\<close>

lemma observeButtons_frame:
  "timers (fst (observeButtons bs s)) = timers s"
  "trace (fst (observeButtons bs s)) = trace s"
  "processedButtons (fst (observeButtons bs s)) = processedButtons s"
  "pendingButtons (fst (observeButtons bs s)) = pendingButtons s"
  "nextTimerId (fst (observeButtons bs s)) = nextTimerId s"
  "now (fst (observeButtons bs s)) = now s"
  "debounceTimer (fst (observeButtons bs s)) = debounceTimer s"
  "observer (fst (observeButtons bs s)) = observer s"
  "navObserver (fst (observeButtons bs s)) = navObserver s"
  "page (fst (observeButtons bs s)) = page s"
  "idleCallbacks (fst (observeButtons bs s)) = idleCallbacks s"
  by (induction bs arbitrary: s; simp split: option.split)+

lemma processFunction_eq:
  "processFunction bs s =
     (if snd (observeButtons bs s) then fst (observeButtons bs s)
      else (fst (observeButtons bs s))\<lparr>isProcessing := False\<rparr>)"
  by (simp add: processFunction_def split: prod.split)

lemma processFunction_frame:
  "timers (processFunction bs s) = timers s"
  "trace (processFunction bs s) = trace s"
  "processedButtons (processFunction bs s) = processedButtons s"
  "pendingButtons (processFunction bs s) = pendingButtons s"
  "nextTimerId (processFunction bs s) = nextTimerId s"
  "now (processFunction bs s) = now s"
  "debounceTimer (processFunction bs s) = debounceTimer s"
  "observer (processFunction bs s) = observer s"
  "navObserver (processFunction bs s) = navObserver s"
  "page (processFunction bs s) = page s"
  "idleCallbacks (processFunction bs s) = idleCallbacks s"
  by (simp_all add: processFunction_eq observeButtons_frame)


subsection \<open>The effect of dispatch\<close>

lemma clickCallback_eq:
  "clickCallback b s =
     (if isConnected (nodes (page s) b) \<and> \<not> disabled (nodes (page s) b) then
        (if clickThrows (nodes (page s) b) then emit (Console ErrClick) (emit (Clicked b) s)
         else emit (Console LogExpanded) (emit (Clicked b) s))
      else s)"
  by (simp add: clickCallback_def clickTry_def Let_def)

lemma clickCallback_frame:
  "timers (clickCallback b s) = timers s"
  "processedButtons (clickCallback b s) = processedButtons s"
  "pendingButtons (clickCallback b s) = pendingButtons s"
  "nextTimerId (clickCallback b s) = nextTimerId s"
  "now (clickCallback b s) = now s"
  "debounceTimer (clickCallback b s) = debounceTimer s"
  "intersectionObserver (clickCallback b s) = intersectionObserver s"
  "observer (clickCallback b s) = observer s"
  "navObserver (clickCallback b s) = navObserver s"
  "page (clickCallback b s) = page s"
  "idleCallbacks (clickCallback b s) = idleCallbacks s"
  by (simp_all add: clickCallback_eq emit_def)

lemma processButton_frame:
  "trace (processButton b s) = trace s"
  "pendingButtons (processButton b s) = pendingButtons s"
  "now (processButton b s) = now s"
  "debounceTimer (processButton b s) = debounceTimer s"
  "intersectionObserver (processButton b s) = intersectionObserver s"
  "observer (processButton b s) = observer s"
  "navObserver (processButton b s) = navObserver s"
  "page (processButton b s) = page s"
  "idleCallbacks (processButton b s) = idleCallbacks s"
  by (simp_all add: processButton_def setTimeout_def Let_def)

lemma processButton_cases:
  "processButton b s = s
   \<or> (b \<notin> processedButtons s \<and> isValidShowMoreButton s b
      \<and> processedButtons (processButton b s) = insert b (processedButtons s)
      \<and> ((timers (processButton b s) = timers s \<and> nextTimerId (processButton b s) = nextTimerId s)
         \<or> (timers (processButton b s) = timers s @ [(nextTimerId s, now s + clickDelay, Click b)]
            \<and> nextTimerId (processButton b s) = Suc (nextTimerId s))))"
  by (auto simp: processButton_def setTimeout_def Let_def isValidShowMoreButton_def)

lemmas frames = processPendingButtons_frame findNewButtons_frame backupCallback_frame
  backupCallback_trace observeButtons_frame processFunction_frame clickCallback_frame
  processButton_frame

subsection \<open>Evaluation of the examples\<close>

lemmas model_defs = emit_def setTimeout_def clearTimeout_def isValidShowMoreButton_def
  isTweetContainer_def findTweetContainer_def clickTry_def clickCallback_def processButton_def
  onEntry_def intersectionCallback_def setupIntersectionObserver_def processFunction_def
  processPendingButtons_def matchesButtonSelector_def querySelectorAll_def setAdd_def
  findNewButtons_def debouncedExpand_def relevantNode_def shouldProcess_def mutationCallback_def
  setupMutationObserver_def handleNavigation_def backupCallback_def initialize_def cleanup_def
  boot_def runCallback_def fireTimer_def run_def clickDelay_def debounceDelay_def
  maxProcessPerBatch_def navigationDelay_def initialScanDelay_def backupPeriod_def
  showMoreTestid_def

lemmas example_defs = articleNode_def buttonNode_def tweetPage_def throwingPage_def
  releaseSession_def crossing_def hiddenPage_def rescanSession_def sevenPage_def onceSession_def laterEvents_def afterUnload_def
  tweetMutation_def earlyUnload_def

subsection \<open>The action dispatcher\<close>

text \<open>
  Claim C7. processButton schedules the click after the fixed delay of 300 ms; the host
  does not run it earlier. When the timer fires, the callback re-validates the element:
  if it is disconnected or disabled nothing is logged, nothing is scheduled again and the
  element stays in the registry; otherwise the activation is invoked, and if it raises the
  error is logged. In every case the callback returns to the event loop with the other
  timers, the registry and the pending set untouched.
\<close>

theorem dispatcher_revalidates_and_contains_failure:
  "(timers (processButton b s) = timers s
      \<or> timers (processButton b s) = timers s @ [(nextTimerId s, now s + 300, Click b)])
   \<and> (find (\<lambda>t. fst t = i) (timers s) = Some (i, due, Click b) \<longrightarrow>
        (now s < due \<longrightarrow> fireTimer i s = s)
      \<and> (due \<le> now s \<longrightarrow>
           timers (fireTimer i s) = filter (\<lambda>t. fst t \<noteq> i) (timers s)
         \<and> processedButtons (fireTimer i s) = processedButtons s
         \<and> pendingButtons (fireTimer i s) = pendingButtons s
         \<and> trace (fireTimer i s) =
             trace s @ Fired (now s) (Click b) #
               (if isConnected (nodes (page s) b) \<and> \<not> disabled (nodes (page s) b)
                then [Clicked b,
                      Console (if clickThrows (nodes (page s) b) then ErrClick else LogExpanded)]
                else [])))"
proof (intro conjI impI)
  show "timers (processButton b s) = timers s
      \<or> timers (processButton b s) = timers s @ [(nextTimerId s, now s + 300, Click b)]"
  proof -
    have "now s + clickDelay = now s + 300" by (simp add: clickDelay_def)
    with processButton_cases[of b s] show ?thesis by metis
  qed
next
  assume "find (\<lambda>t. fst t = i) (timers s) = Some (i, due, Click b)" "now s < due"
  then show "fireTimer i s = s" by (simp add: fireTimer_def)
next
  assume f: "find (\<lambda>t. fst t = i) (timers s) = Some (i, due, Click b)" and d: "due \<le> now s"
  let ?s = "emit (Fired (now s) (Click b)) (s\<lparr>timers := filter (\<lambda>t. fst t \<noteq> i) (timers s)\<rparr>)"
  have fire: "fireTimer i s = clickCallback b ?s"
    using f d by (simp add: fireTimer_def runCallback_def)
  show "timers (fireTimer i s) = filter (\<lambda>t. fst t \<noteq> i) (timers s)"
    unfolding fire by (simp add: clickCallback_frame emit_def)
  show "processedButtons (fireTimer i s) = processedButtons s"
    unfolding fire by (simp add: clickCallback_frame emit_def)
  show "pendingButtons (fireTimer i s) = pendingButtons s"
    unfolding fire by (simp add: clickCallback_frame emit_def)
  show "trace (fireTimer i s) =
             trace s @ Fired (now s) (Click b) #
               (if isConnected (nodes (page s) b) \<and> \<not> disabled (nodes (page s) b)
                then [Clicked b,
                      Console (if clickThrows (nodes (page s) b) then ErrClick else LogExpanded)]
                else [])"
    unfolding fire by (simp add: clickCallback_eq emit_def)
qed

text \<open>
  On the page where activating button 1 raises: its timer logs the error, the timer of
  button 2 stays in the table and, fired next, activates button 2.
\<close>

lemma throwingState_eq:
  "throwingState =
     \<lparr>processedButtons = {2, 1}, pendingButtons = [], debounceTimer = None,
      isProcessing = False, observer = Some True, intersectionObserver = Some {2, 1},
      currentUrl = ''https://x.com/b'', navObserver = True, awaitingReady = False,
      timers = [(2, 5000, Backup), (4, 2100, Click 1), (5, 2100, Click 2)],
      nextTimerId = 6, now = 2100, idleCallbacks = [], page = throwingPage,
      href = ''https://x.com/b'',
      trace = [Console LogInitializing, Console LogInitComplete, Fired 1000 InitialScan,
        Scanned [1, 2], Console (LogFound 2), Fired 1800 NavScan, Scanned [1, 2],
        Crossed 1, Crossed 2]\<rparr>"
  by (simp add: throwingState_def model_defs example_defs Let_def)

theorem dispatcher_witness:
  "trace (fireTimer 4 throwingState) =
     trace throwingState @ [Fired 2100 (Click 1), Clicked 1, Console ErrClick]
   \<and> timers (fireTimer 4 throwingState) = [(2, 5000, Backup), (5, 2100, Click 2)]
   \<and> trace (fireTimer 5 (fireTimer 4 throwingState)) =
     trace (fireTimer 4 throwingState) @ [Fired 2100 (Click 2), Clicked 2, Console LogExpanded]"
  using dispatcher_revalidates_and_contains_failure[of 1 throwingState 4 2100]
    dispatcher_revalidates_and_contains_failure[of 2 "fireTimer 4 throwingState" 5 2100]
  unfolding throwingState_eq
  by (simp add: model_defs example_defs Let_def)

subsection \<open>The candidate scanner\<close>

lemma hiddenState_eq:
  "hiddenState =
     \<lparr>processedButtons = {}, pendingButtons = [], debounceTimer = None,
      isProcessing = False, observer = Some True, intersectionObserver = Some {},
      currentUrl = ''https://x.com/a'', navObserver = True, awaitingReady = False,
      timers = [(1, 1000, InitialScan), (2, 5000, Backup)], nextTimerId = 3,
      now = 0, idleCallbacks = [], page = hiddenPage, href = ''https://x.com/a'',
      trace = [Console LogInitializing, Console LogInitComplete]\<rparr>"
  by (simp add: hiddenState_def model_defs Let_def)

text \<open>
  Claim C9, as stated, fails: the scan of content.js accepts a signature match that is
  disabled, marked aria-hidden, transparent, without extent and hidden by the style sheet,
  since isValidShowMoreButton reads only the connection, the registry, the marker, the
  inline display and visibility, and the text.
\<close>

theorem scanner_accepts_hidden_counterexample:
  "disabled (nodes hiddenPage 1) \<and> ariaHidden (nodes hiddenPage 1)
   \<and> computedOpacity (nodes hiddenPage 1) = ''0'' \<and> rectWidth (nodes hiddenPage 1) = 0
   \<and> computedDisplay (nodes hiddenPage 1) = ''none''
   \<and> candidates hiddenState = [1] \<and> fst (findNewButtons hiddenState) = 1"
  unfolding hiddenState_eq
  by (simp add: candidates_def model_defs example_defs Let_def)

text \<open>
  Claim C9, amended. Every candidate the scan accepts is a signature match that is
  connected, not in the registry, not hidden by an inline display or visibility style, and
  contains the text; a disabled element is turned away only at dispatch, where the click
  callback does nothing.
\<close>

theorem scanner_rejections:
  "(b \<in> set (candidates s) \<longrightarrow>
      b \<in> set (querySelectorAll (page s))
    \<and> isConnected (nodes (page s) b)
    \<and> b \<notin> processedButtons s
    \<and> styleDisplay (nodes (page s) b) \<noteq> ''none''
    \<and> styleVisibility (nodes (page s) b) \<noteq> ''hidden''
    \<and> str_includes (textContent (nodes (page s) b)) ''Show more'')
   \<and> (disabled (nodes (page s) b) \<longrightarrow> clickCallback b s = s)"
proof (intro conjI impI)
  assume "b \<in> set (candidates s)"
  then have q: "b \<in> set (querySelectorAll (page s))" and a: "accepts s b"
    by (simp_all add: candidates_filter)
  show "b \<in> set (querySelectorAll (page s))" by (rule q)
  from a have v: "isValidShowMoreButton s b" and p: "b \<notin> processedButtons s"
    by (simp_all add: accepts_def)
  show "b \<notin> processedButtons s" by (rule p)
  from v show "isConnected (nodes (page s) b)"
    by (simp add: isValidShowMoreButton_def Let_def split: if_splits)
  from v show "styleDisplay (nodes (page s) b) \<noteq> ''none''"
    by (simp add: isValidShowMoreButton_def Let_def split: if_splits)
  from v show "styleVisibility (nodes (page s) b) \<noteq> ''hidden''"
    by (simp add: isValidShowMoreButton_def Let_def split: if_splits)
  from v show "str_includes (textContent (nodes (page s) b)) ''Show more''"
    by (simp add: isValidShowMoreButton_def Let_def split: if_splits)
next
  assume "disabled (nodes (page s) b)"
  then show "clickCallback b s = s" by (simp add: clickCallback_eq)
qed

theorem scanner_rejections_witness:
  "1 \<in> set (candidates hiddenState) \<and> isConnected (nodes (page hiddenState) 1)
   \<and> styleDisplay (nodes (page hiddenState) 1) \<noteq> ''none''
   \<and> disabled (nodes (page hiddenState) 1) \<and> clickCallback 1 hiddenState = hiddenState"
  using scanner_rejections[of 1 hiddenState]
  unfolding hiddenState_eq
  by (simp add: candidates_def model_defs example_defs Let_def)

subsection \<open>Marking in the registry\<close>

lemma rescanState_eq:
  "rescanState =
     \<lparr>processedButtons = {}, pendingButtons = [], debounceTimer = None,
      isProcessing = True, observer = Some True, intersectionObserver = Some {1},
      currentUrl = ''https://x.com/a'', navObserver = True, awaitingReady = False,
      timers = [(2, 10000, Backup)], nextTimerId = 3, now = 5000,
      idleCallbacks = [[1]], page = tweetPage 1, href = ''https://x.com/a'',
      trace = [Console LogInitializing, Console LogInitComplete, Fired 1000 InitialScan,
        Scanned [1], Console (LogFound 1), Fired 5000 Backup, Scanned [1]]\<rparr>"
  by (simp add: rescanState_def model_defs example_defs Let_def)

text \<open>
  Claim C3, as stated, fails: after the initial scan, its idle callback and the backup scan
  on a page with one valid button, the registry is still empty; both scans accepted the
  button, the first cycle subscribed it and the second queued it for admission again.
\<close>

theorem scan_does_not_mark_counterexample:
  "processedButtons rescanState = {}
   \<and> trace rescanState =
       [Console LogInitializing, Console LogInitComplete, Fired 1000 InitialScan,
        Scanned [1], Console (LogFound 1), Fired 5000 Backup, Scanned [1]]
   \<and> intersectionObserver rescanState = Some {1}
   \<and> idleCallbacks rescanState = [[1]]"
  unfolding rescanState_eq by simp

text \<open>
  Claim C3, amended. A scan leaves the registry as it is; an element is marked by
  processButton, in the same synchronous step that schedules its click timer, and from
  then on no scan accepts it.
\<close>

theorem marking_at_dispatch:
  "processedButtons (snd (findNewButtons s)) = processedButtons s
   \<and> (b \<in> processedButtons s \<longrightarrow> b \<notin> set (candidates s))
   \<and> (isValidShowMoreButton s b \<longrightarrow> b \<in> processedButtons (processButton b s))
   \<and> (timers (processButton b s) \<noteq> timers s \<longrightarrow> b \<in> processedButtons (processButton b s))"
proof (intro conjI impI)
  show "processedButtons (snd (findNewButtons s)) = processedButtons s"
    by (rule findNewButtons_frame)
next
  assume "b \<in> processedButtons s"
  then show "b \<notin> set (candidates s)" by (simp add: candidates_filter accepts_def)
next
  assume "isValidShowMoreButton s b"
  then show "b \<in> processedButtons (processButton b s)"
    by (simp add: processButton_def setTimeout_def Let_def)
next
  assume "timers (processButton b s) \<noteq> timers s"
  then have "processButton b s \<noteq> s" by auto
  with processButton_cases[of b s]
  have "processedButtons (processButton b s) = insert b (processedButtons s)" by blast
  then show "b \<in> processedButtons (processButton b s)" by simp
qed

lemma releasedState_eq:
  "releasedState =
     \<lparr>processedButtons = {1}, pendingButtons = [], debounceTimer = None,
      isProcessing = False, observer = Some True, intersectionObserver = Some {1},
      currentUrl = ''https://x.com/b'', navObserver = True, awaitingReady = False,
      timers = [(2, 5000, Backup), (4, 2100, Click 1)], nextTimerId = 5, now = 1800,
      idleCallbacks = [], page = tweetPage 1, href = ''https://x.com/b'',
      trace = [Console LogInitializing, Console LogInitComplete, Fired 1000 InitialScan,
        Scanned [1], Console (LogFound 1), Fired 1800 NavScan, Scanned [1], Crossed 1]\<rparr>"
  by (simp add: releasedState_def model_defs example_defs Let_def)

theorem marking_at_dispatch_witness:
  "1 \<in> processedButtons releasedState \<and> 1 \<notin> set (candidates releasedState)
   \<and> isValidShowMoreButton rescanState 1
   \<and> timers (processButton 1 rescanState) = [(2, 10000, Backup), (3, 5300, Click 1)]
   \<and> 1 \<in> processedButtons (processButton 1 rescanState)"
  using marking_at_dispatch[of releasedState 1] marking_at_dispatch[of rescanState 1]
  unfolding releasedState_eq rescanState_eq
  by (simp add: candidates_def model_defs example_defs Let_def)

subsection \<open>The visibility gate\<close>

lemma cleanup_frame:
  "observer (cleanup s) = map_option (\<lambda>b. False) (observer s)"
  "intersectionObserver (cleanup s) = map_option (\<lambda>T. {}) (intersectionObserver s)"
  "timers (cleanup s) = filter (\<lambda>t. Some (fst t) \<noteq> debounceTimer s) (timers s)"
  "processedButtons (cleanup s) = processedButtons s"
  "pendingButtons (cleanup s) = pendingButtons s"
  "trace (cleanup s) = trace s"
  "nextTimerId (cleanup s) = nextTimerId s"
  "now (cleanup s) = now s"
  "debounceTimer (cleanup s) = debounceTimer s"
  "navObserver (cleanup s) = navObserver s"
  "idleCallbacks (cleanup s) = idleCallbacks s"
  "page (cleanup s) = page s"
  by (simp_all add: cleanup_def clearTimeout_def Let_def split: option.split)

lemma pendingState_eq:
  "pendingState =
     \<lparr>processedButtons = {}, pendingButtons = [1], debounceTimer = None,
      isProcessing = False, observer = Some True, intersectionObserver = Some {1},
      currentUrl = ''https://x.com/b'', navObserver = True, awaitingReady = False,
      timers = [(2, 5000, Backup)], nextTimerId = 4, now = 1800,
      idleCallbacks = [], page = tweetPage 1, href = ''https://x.com/b'',
      trace = [Console LogInitializing, Console LogInitComplete, Fired 1000 InitialScan,
        Scanned [1], Console (LogFound 1), Fired 1800 NavScan, Scanned [1]]\<rparr>"
  by (simp add: pendingState_def model_defs example_defs Let_def)





subsection \<open>The batch bound\<close>




text \<open>With seven valid buttons: five are subscribed, all seven are found again.\<close>

lemma sevenState_eq:
  "sevenState =
     \<lparr>processedButtons = {}, pendingButtons = [], debounceTimer = None,
      isProcessing = False, observer = Some True, intersectionObserver = Some {},
      currentUrl = ''https://x.com/a'', navObserver = True, awaitingReady = False,
      timers = [(1, 1000, InitialScan), (2, 5000, Backup)], nextTimerId = 3, now = 1000,
      idleCallbacks = [], page = sevenPage, href = ''https://x.com/a'',
      trace = [Console LogInitializing, Console LogInitComplete]\<rparr>"
  by (simp add: sevenState_def model_defs example_defs Let_def)






subsection \<open>The effect of the timer and observer operations\<close>

lemma clearTimeout_timers:
  "timers (clearTimeout h s) = filter (\<lambda>t. Some (fst t) \<noteq> h) (timers s)"
  by (cases h) (simp_all add: clearTimeout_def)

lemma clearTimeout_frame:
  "trace (clearTimeout h s) = trace s"
  "processedButtons (clearTimeout h s) = processedButtons s"
  "pendingButtons (clearTimeout h s) = pendingButtons s"
  "nextTimerId (clearTimeout h s) = nextTimerId s"
  "now (clearTimeout h s) = now s"
  "debounceTimer (clearTimeout h s) = debounceTimer s"
  "intersectionObserver (clearTimeout h s) = intersectionObserver s"
  "observer (clearTimeout h s) = observer s"
  "navObserver (clearTimeout h s) = navObserver s"
  "page (clearTimeout h s) = page s"
  "idleCallbacks (clearTimeout h s) = idleCallbacks s"
  by (cases h; simp add: clearTimeout_def)+

lemma debouncedExpand_timers:
  "timers (debouncedExpand s) =
     filter (\<lambda>t. Some (fst t) \<noteq> debounceTimer s) (timers s)
       @ [(nextTimerId s, now s + debounceDelay, DebounceScan)]"
  by (simp add: debouncedExpand_def setTimeout_def Let_def clearTimeout_timers clearTimeout_frame)

lemma debouncedExpand_frame:
  "trace (debouncedExpand s) = trace s"
  "processedButtons (debouncedExpand s) = processedButtons s"
  "pendingButtons (debouncedExpand s) = pendingButtons s"
  "nextTimerId (debouncedExpand s) = Suc (nextTimerId s)"
  "now (debouncedExpand s) = now s"
  "debounceTimer (debouncedExpand s) = Some (nextTimerId s)"
  "intersectionObserver (debouncedExpand s) = intersectionObserver s"
  "observer (debouncedExpand s) = observer s"
  "navObserver (debouncedExpand s) = navObserver s"
  "page (debouncedExpand s) = page s"
  "idleCallbacks (debouncedExpand s) = idleCallbacks s"
  by (simp_all add: debouncedExpand_def setTimeout_def Let_def clearTimeout_frame)

lemma mutationCallback_cases:
  "mutationCallback ms s = s \<or> mutationCallback ms s = debouncedExpand s"
  by (simp add: mutationCallback_def)

lemma handleNavigation_cases:
  "handleNavigation s = s
   \<or> (timers (handleNavigation s) = timers s @ [(nextTimerId s, now s + navigationDelay, NavScan)]
      \<and> nextTimerId (handleNavigation s) = Suc (nextTimerId s))"
  by (simp add: handleNavigation_def setTimeout_def)

lemma handleNavigation_frame:
  "trace (handleNavigation s) = trace s"
  "processedButtons (handleNavigation s) = processedButtons s"
  "pendingButtons (handleNavigation s) = pendingButtons s"
  "now (handleNavigation s) = now s"
  "debounceTimer (handleNavigation s) = debounceTimer s"
  "intersectionObserver (handleNavigation s) = intersectionObserver s"
  "observer (handleNavigation s) = observer s"
  "navObserver (handleNavigation s) = navObserver s"
  "page (handleNavigation s) = page s"
  "idleCallbacks (handleNavigation s) = idleCallbacks s"
  by (simp_all add: handleNavigation_def setTimeout_def)

lemma initialize_effect:
  "timers (initialize s) =
     timers s @ [(nextTimerId s, now s + initialScanDelay, InitialScan),
                 (Suc (nextTimerId s), now s + backupPeriod, Backup)]"
  "nextTimerId (initialize s) = Suc (Suc (nextTimerId s))"
  "trace (initialize s) = trace s @ [Console LogInitializing, Console LogInitComplete]"
  "processedButtons (initialize s) = processedButtons s"
  "pendingButtons (initialize s) = pendingButtons s"
  "now (initialize s) = now s"
  "debounceTimer (initialize s) = debounceTimer s"
  "page (initialize s) = page s"
  "idleCallbacks (initialize s) = idleCallbacks s"
  by (simp_all add: initialize_def setTimeout_def emit_def Let_def
      setupIntersectionObserver_def setupMutationObserver_def split: option.split)

lemma clickCallback_trace:
  "trace (clickCallback b s) =
     trace s @ (if isConnected (nodes (page s) b) \<and> \<not> disabled (nodes (page s) b)
                then [Clicked b,
                      Console (if clickThrows (nodes (page s) b) then ErrClick else LogExpanded)]
                else [])"
  by (simp add: clickCallback_eq emit_def)

lemma onEntry_eq:
  "onEntry en s =
     (if isIntersecting en then
        (if target en \<in> set (pendingButtons s)
         then processButton (target en)
                ((emit (Crossed (target en)) s)\<lparr>pendingButtons := removeAll (target en) (pendingButtons s)\<rparr>)
         else emit (Crossed (target en)) s)
      else s)"
  by (simp add: onEntry_def emit_def Let_def)

lemma find_id_Some:
  "find (\<lambda>t. fst t = i) ts = Some (j, due, cb) \<Longrightarrow> j = i \<and> (i, due, cb) \<in> set ts"
  by (induction ts) (auto split: if_splits)

text \<open>The table after the host has taken timer i with callback cb out of it.\<close>

lemma fireTimer_cases:
  "fireTimer i s = s
   \<or> (\<exists>due cb. (i, due, cb) \<in> set (timers s) \<and> due \<le> now s
        \<and> fireTimer i s =
            runCallback cb (emit (Fired (now s) cb)
              (s\<lparr>timers := filter (\<lambda>t. fst t \<noteq> i) (timers s)
                     @ (if cb = Backup then [(i, now s + backupPeriod, Backup)] else [])\<rparr>)))"
proof (cases "find (\<lambda>t. fst t = i) (timers s)")
  case None
  then show ?thesis by (simp add: fireTimer_def)
next
  case (Some t)
  obtain j due cb where t: "t = (j, due, cb)" by (cases t) auto
  from find_id_Some[OF Some[unfolded t]] have j: "j = i" and m: "(i, due, cb) \<in> set (timers s)"
    by simp_all
  show ?thesis
  proof (cases "now s < due")
    case True
    then show ?thesis using Some t by (simp add: fireTimer_def)
  next
    case False
    then have "fireTimer i s =
            runCallback cb (emit (Fired (now s) cb)
              (s\<lparr>timers := filter (\<lambda>t. fst t \<noteq> i) (timers s)
                     @ (if cb = Backup then [(i, now s + backupPeriod, Backup)] else [])\<rparr>))"
      using Some t by (simp add: fireTimer_def Let_def)
    with m False show ?thesis by (metis not_less)
  qed
qed

lemma runCallback_frame:
  "timers (runCallback cb s) = timers s"
  "processedButtons (runCallback cb s) = processedButtons s"
  "nextTimerId (runCallback cb s) = nextTimerId s"
  "now (runCallback cb s) = now s"
  "debounceTimer (runCallback cb s) = debounceTimer s"
  "intersectionObserver (runCallback cb s) = intersectionObserver s"
  "observer (runCallback cb s) = observer s"
  "navObserver (runCallback cb s) = navObserver s"
  "page (runCallback cb s) = page s"
  by (cases cb; simp add: runCallback_def emit_def findNewButtons_frame backupCallback_frame
        clickCallback_frame split: prod.split;
      metis findNewButtons_frame snd_conv)+

lemma runCallback_trace:
  "trace (runCallback cb s) =
     trace s @ (case cb of
        InitialScan \<Rightarrow> [Scanned (candidates s), Console (LogFound (length (candidates s)))]
      | DebounceScan \<Rightarrow> [Scanned (candidates s)]
      | NavScan \<Rightarrow> [Scanned (candidates s)]
      | Backup \<Rightarrow> [Scanned (candidates s)]
      | Click b \<Rightarrow> (if isConnected (nodes (page s) b) \<and> \<not> disabled (nodes (page s) b)
                then [Clicked b,
                      Console (if clickThrows (nodes (page s) b) then ErrClick else LogExpanded)]
                else []))"
  by (cases cb) (simp_all add: runCallback_def emit_def findNewButtons_frame backupCallback_trace
        clickCallback_trace findNewButtons_eq processPendingButtons_frame)

subsection \<open>At most one activation\<close>

text \<open>
  The invariant behind claim C1: for each element, its activations in the trace and its
  click timers in the table number at most one together, and none unless the element is in
  the registry. Every operation of the script and every step of the host preserves it.
\<close>

lemma length_filter_filter_le:
  "length (filter P (filter Q ts)) \<le> length (filter P ts)"
  by (induction ts) auto

lemma length_filter_remove:
  "x \<in> set ts \<Longrightarrow> \<not> Q x \<Longrightarrow>
   length (filter P (filter Q ts)) + (if P x then 1 else 0) \<le> length (filter P ts)"
proof (induction ts)
  case Nil
  then show ?case by simp
next
  case (Cons t ts)
  show ?case
  proof (cases "x = t")
    case True
    have "length (filter P (filter Q ts)) \<le> length (filter P ts)"
      by (rule length_filter_filter_le)
    with True Cons.prems(2) show ?thesis by simp
  next
    case False
    with Cons.prems have "x \<in> set ts" by simp
    from Cons.IH[OF this Cons.prems(2)] show ?thesis by (auto split: if_splits)
  qed
qed

lemma onceInv_cong:
  "trace s' = trace s \<Longrightarrow> timers s' = timers s \<Longrightarrow> processedButtons s' = processedButtons s
   \<Longrightarrow> onceInv e s' = onceInv e s"
  by (simp add: onceInv_def clickLoad_def)

lemma onceInv_emit:
  "x \<noteq> Clicked e \<Longrightarrow> onceInv e (emit x s) = onceInv e s"
  by (simp add: onceInv_def clickLoad_def emit_def)

lemma onceInv_filter:
  assumes "onceInv e s" "trace s' = trace s" "processedButtons s' = processedButtons s"
    "timers s' = filter Q (timers s) @ us" "\<forall>u \<in> set us. snd (snd u) \<noteq> Click e"
  shows "onceInv e s'"
proof -
  have "filter (\<lambda>t. snd (snd t) = Click e) us = []" using assms(5) by (simp add: filter_empty_conv)
  moreover have "length (filter (\<lambda>t. snd (snd t) = Click e) (filter Q (timers s)))
      \<le> length (filter (\<lambda>t. snd (snd t) = Click e) (timers s))"
    by (rule length_filter_filter_le)
  ultimately show ?thesis using assms(1-4) by (simp add: onceInv_def clickLoad_def)
qed

lemma onceInv_append:
  assumes "onceInv e s" "trace s' = trace s" "processedButtons s' = processedButtons s"
    "timers s' = timers s @ us" "\<forall>u \<in> set us. snd (snd u) \<noteq> Click e"
  shows "onceInv e s'"
proof -
  have "timers s' = filter (\<lambda>t. True) (timers s) @ us" using assms(4) by simp
  from onceInv_filter[OF assms(1-3) this assms(5)] show ?thesis .
qed

lemma onceInv_processButton:
  assumes "onceInv e s"
  shows "onceInv e (processButton b s)"
proof -
  from processButton_cases[of b s] consider
    (same) "processButton b s = s"
  | (marked) "b \<notin> processedButtons s"
      "processedButtons (processButton b s) = insert b (processedButtons s)"
      "timers (processButton b s) = timers s
       \<or> timers (processButton b s) = timers s @ [(nextTimerId s, now s + clickDelay, Click b)]"
    by blast
  then show ?thesis
  proof cases
    case same
    with assms show ?thesis by simp
  next
    case marked
    have tr: "trace (processButton b s) = trace s" by (rule processButton_frame)
    show ?thesis
    proof (cases "e = b")
      case True
      with marked(1) assms have "clickLoad e s = 0" by (simp add: onceInv_def)
      then have z: "count_list (trace s) (Clicked e) = 0"
        "length (filter (\<lambda>t. snd (snd t) = Click e) (timers s)) = 0"
        by (simp_all add: clickLoad_def)
      from marked(3) z show ?thesis
        unfolding onceInv_def clickLoad_def tr marked(2) using True by auto
    next
      case False
      from marked(3) have "length (filter (\<lambda>t. snd (snd t) = Click e) (timers (processButton b s)))
          = length (filter (\<lambda>t. snd (snd t) = Click e) (timers s))"
        using False by auto
      with assms False show ?thesis
        unfolding onceInv_def clickLoad_def tr marked(2) by simp
    qed
  qed
qed

lemma onceInv_onEntry:
  assumes "onceInv e s"
  shows "onceInv e (onEntry en s)"
proof -
  let ?s0 = "emit (Crossed (target en)) s"
  let ?s1 = "?s0\<lparr>pendingButtons := removeAll (target en) (pendingButtons s)\<rparr>"
  have s0: "onceInv e ?s0" using assms by (simp add: onceInv_emit)
  have "onceInv e ?s1 = onceInv e ?s0" by (rule onceInv_cong) simp_all
  with s0 have "onceInv e ?s1" by simp
  then have "onceInv e (processButton (target en) ?s1)" by (rule onceInv_processButton)
  with s0 assms show ?thesis unfolding onEntry_eq by simp
qed

lemma onceInv_intersectionCallback:
  "onceInv e s \<Longrightarrow> onceInv e (intersectionCallback es s)"
  unfolding intersectionCallback_def
  by (induction es arbitrary: s) (simp_all add: onceInv_onEntry)

lemma onceInv_debouncedExpand:
  assumes "onceInv e s"
  shows "onceInv e (debouncedExpand s)"
  by (rule onceInv_filter[OF assms _ _ debouncedExpand_timers])
    (simp_all add: debouncedExpand_frame)

lemma onceInv_handleNavigation:
  assumes "onceInv e s"
  shows "onceInv e (handleNavigation s)"
proof -
  from handleNavigation_cases[of s] show ?thesis
  proof
    assume "handleNavigation s = s"
    with assms show ?thesis by simp
  next
    assume a: "timers (handleNavigation s) = timers s @ [(nextTimerId s, now s + navigationDelay, NavScan)]
      \<and> nextTimerId (handleNavigation s) = Suc (nextTimerId s)"
    show ?thesis
      by (rule onceInv_append[OF assms _ _ conjunct1[OF a]]) (simp_all add: handleNavigation_frame)
  qed
qed

lemma count_list_snoc: "count_list (xs @ [x]) y = count_list xs y + (if x = y then 1 else 0)"
  by (induction xs) auto

lemma onceInv_initialize:
  assumes "onceInv e s"
  shows "onceInv e (initialize s)"
proof -
  let ?s' = "s\<lparr>timers := timers (initialize s)\<rparr>"
  have "onceInv e ?s'"
    by (rule onceInv_append[OF assms, where us = "[(nextTimerId s, now s + initialScanDelay, InitialScan),
                 (Suc (nextTimerId s), now s + backupPeriod, Backup)]"])
      (simp_all add: initialize_effect)
  then show ?thesis
    by (simp add: onceInv_def clickLoad_def initialize_effect count_list_snoc)
qed

lemma onceInv_cleanup:
  assumes "onceInv e s"
  shows "onceInv e (cleanup s)"
  by (rule onceInv_filter[OF assms, where us = "[]"]) (simp_all add: cleanup_frame)

lemma count_list_append2: "count_list (xs @ ys) y = count_list xs y + count_list ys y"
  by (induction xs) auto

lemma onceInv_fireTimer:
  assumes "onceInv e s"
  shows "onceInv e (fireTimer i s)"
proof -
  from fireTimer_cases[of i s] show ?thesis
  proof
    assume "fireTimer i s = s"
    with assms show ?thesis by simp
  next
    assume "\<exists>due cb. (i, due, cb) \<in> set (timers s) \<and> due \<le> now s
        \<and> fireTimer i s =
            runCallback cb (emit (Fired (now s) cb)
              (s\<lparr>timers := filter (\<lambda>t. fst t \<noteq> i) (timers s)
                     @ (if cb = Backup then [(i, now s + backupPeriod, Backup)] else [])\<rparr>))"
    then obtain due cb where m: "(i, due, cb) \<in> set (timers s)"
      and f: "fireTimer i s =
            runCallback cb (emit (Fired (now s) cb)
              (s\<lparr>timers := filter (\<lambda>t. fst t \<noteq> i) (timers s)
                     @ (if cb = Backup then [(i, now s + backupPeriod, Backup)] else [])\<rparr>))"
      by blast
    let ?P = "\<lambda>t. snd (snd t) = Click e"
    let ?s2 = "emit (Fired (now s) cb)
              (s\<lparr>timers := filter (\<lambda>t. fst t \<noteq> i) (timers s)
                     @ (if cb = Backup then [(i, now s + backupPeriod, Backup)] else [])\<rparr>)"
    have rem: "length (filter ?P (filter (\<lambda>t. fst t \<noteq> i) (timers s)))
        + (if ?P (i, due, cb) then 1 else 0) \<le> length (filter ?P (timers s))"
      by (rule length_filter_remove[OF m]) simp
    have tm: "length (filter ?P (timers (fireTimer i s)))
        = length (filter ?P (filter (\<lambda>t. fst t \<noteq> i) (timers s)))"
      unfolding f by (simp add: runCallback_frame emit_def)
    have tr: "count_list (trace (fireTimer i s)) (Clicked e)
        \<le> count_list (trace s) (Clicked e) + (if cb = Click e then 1 else 0)"
      unfolding f by (cases cb) (simp_all add: runCallback_trace emit_def count_list_append2)
    have pr: "processedButtons (fireTimer i s) = processedButtons s"
      unfolding f by (simp add: runCallback_frame emit_def)
    from rem tm tr have "clickLoad e (fireTimer i s) \<le> clickLoad e s"
      unfolding clickLoad_def by (simp split: if_splits)
    with assms pr show ?thesis unfolding onceInv_def by simp
  qed
qed

lemma onceInv_step:
  assumes "onceInv e s"
  shows "onceInv e (step ev s)"
proof (cases ev)
  case DOMContentLoaded
  have "onceInv e (s\<lparr>awaitingReady := False\<rparr>) = onceInv e s" by (rule onceInv_cong) simp_all
  with assms have "onceInv e (initialize (s\<lparr>awaitingReady := False\<rparr>))"
    by (simp add: onceInv_initialize)
  with assms DOMContentLoaded show ?thesis by simp
next
  case (MutationRecords ms)
  from mutationCallback_cases[of ms s] assms have "onceInv e (mutationCallback ms s)"
    by (auto simp: onceInv_debouncedExpand)
  with assms MutationRecords show ?thesis by simp
next
  case BodyChildList
  with assms show ?thesis by (simp add: onceInv_handleNavigation)
next
  case (IntersectionEntries es)
  with assms show ?thesis
    by (simp add: onceInv_intersectionCallback split: option.split list.split)
next
  case IdlePeriod
  show ?thesis
  proof (cases "idleCallbacks s")
    case Nil
    with assms IdlePeriod show ?thesis by simp
  next
    case (Cons b bs)
    have "onceInv e (processFunction b (s\<lparr>idleCallbacks := bs\<rparr>)) = onceInv e s"
      by (rule onceInv_cong) (simp_all add: processFunction_frame)
    with assms IdlePeriod Cons show ?thesis by simp
  qed
next
  case (TimerFires i)
  with assms show ?thesis by (simp add: onceInv_fireTimer)
next
  case BeforeUnload
  with assms show ?thesis by (simp add: onceInv_cleanup)
next
  case (SetDocument d)
  have "onceInv e (s\<lparr>page := d\<rparr>) = onceInv e s" by (rule onceInv_cong) simp_all
  with assms SetDocument show ?thesis by simp
next
  case (SetLocation u)
  have "onceInv e (s\<lparr>href := u\<rparr>) = onceInv e s" by (rule onceInv_cong) simp_all
  with assms SetLocation show ?thesis by simp
next
  case (Advance d)
  have "onceInv e (s\<lparr>now := now s + d\<rparr>) = onceInv e s" by (rule onceInv_cong) simp_all
  with assms Advance show ?thesis by simp
qed

lemma onceInv_run: "onceInv e s \<Longrightarrow> onceInv e (run evs s)"
  unfolding run_def by (induction evs arbitrary: s) (simp_all add: onceInv_step)

lemma onceInv_boot: "onceInv e (boot loading d url)"
proof (cases loading)
  case True
  then show ?thesis by (simp add: boot_def onceInv_def clickLoad_def)
next
  case False
  have "onceInv e (initialize \<lparr>processedButtons = {}, pendingButtons = [], debounceTimer = None,
                isProcessing = False, observer = None, intersectionObserver = None,
                currentUrl = url, navObserver = False, awaitingReady = loading,
                timers = [], nextTimerId = 1, now = 0, idleCallbacks = [],
                page = d, href = url, trace = []\<rparr>)"
    by (rule onceInv_initialize) (simp add: onceInv_def clickLoad_def)
  with False show ?thesis by (simp add: boot_def)
qed

lemma processed_onEntry: "processedButtons s \<subseteq> processedButtons (onEntry en s)"
proof -
  let ?s1 = "(emit (Crossed (target en)) s)\<lparr>pendingButtons := removeAll (target en) (pendingButtons s)\<rparr>"
  from processButton_cases[of "target en" ?s1]
  have "processedButtons ?s1 \<subseteq> processedButtons (processButton (target en) ?s1)" by auto
  then show ?thesis unfolding onEntry_eq by (simp add: emit_def)
qed

lemma processed_intersectionCallback:
  "processedButtons s \<subseteq> processedButtons (intersectionCallback es s)"
  unfolding intersectionCallback_def
proof (induction es arbitrary: s)
  case Nil
  then show ?case by simp
next
  case (Cons en es)
  have "processedButtons s \<subseteq> processedButtons (onEntry en s)" by (rule processed_onEntry)
  also have "\<dots> \<subseteq> processedButtons (fold onEntry es (onEntry en s))" by (rule Cons.IH)
  finally show ?case by simp
qed

lemma processed_fireTimer: "processedButtons (fireTimer i s) = processedButtons s"
  using fireTimer_cases[of i s] by (auto simp: runCallback_frame emit_def)

lemma processed_step: "processedButtons s \<subseteq> processedButtons (step ev s)"
proof (cases ev)
  case (MutationRecords ms)
  with mutationCallback_cases[of ms s] show ?thesis by (auto simp: debouncedExpand_frame)
next
  case (IntersectionEntries es)
  then show ?thesis
    using processed_intersectionCallback by (simp split: option.split list.split)
next
  case IdlePeriod
  then show ?thesis by (simp add: processFunction_frame split: list.split)
qed (simp_all add: initialize_effect handleNavigation_frame processed_fireTimer cleanup_frame)

lemma processed_run: "processedButtons s \<subseteq> processedButtons (run evs s)"
  unfolding run_def
proof (induction evs arbitrary: s)
  case Nil
  then show ?case by simp
next
  case (Cons ev evs)
  have "processedButtons s \<subseteq> processedButtons (step ev s)" by (rule processed_step)
  also have "\<dots> \<subseteq> processedButtons (fold step evs (step ev s))" by (rule Cons.IH)
  finally show ?case by simp
qed

text \<open>
  Claim C1. In every session, whatever the order of scans, navigations, idle periods,
  crossings, timer firings and page mutations, the activation is invoked on an element at
  most once. Once an element is in the registry it stays there, no scan accepts it and
  processButton does nothing for it.
\<close>

theorem at_most_once:
  "count_list (trace (run evs (boot loading d url))) (Clicked e) \<le> 1
   \<and> (e \<in> processedButtons s \<longrightarrow>
        e \<in> processedButtons (run evs' s) \<and> e \<notin> set (candidates s) \<and> processButton e s = s)"
proof (intro conjI impI)
  have "onceInv e (run evs (boot loading d url))"
    by (rule onceInv_run[OF onceInv_boot])
  then have "clickLoad e (run evs (boot loading d url)) \<le> 1"
    by (simp add: onceInv_def split: if_splits)
  then show "count_list (trace (run evs (boot loading d url))) (Clicked e) \<le> 1"
    by (simp add: clickLoad_def)
next
  assume p: "e \<in> processedButtons s"
  with processed_run[of s evs'] show "e \<in> processedButtons (run evs' s)" by blast
  from p show "e \<notin> set (candidates s)" by (simp add: candidates_filter accepts_def)
  from p show "processButton e s = s" by (simp add: processButton_def isValidShowMoreButton_def)
qed

text \<open>
  A session in which button 1 is clicked, found by no later scan and crosses into view a
  second time: it has been activated exactly once.
\<close>

lemma onceState_eq:
  "onceState =
     \<lparr>processedButtons = {1}, pendingButtons = [], debounceTimer = None,
      isProcessing = False, observer = Some True, intersectionObserver = Some {1},
      currentUrl = ''https://x.com/b'', navObserver = True, awaitingReady = False,
      timers = [(2, 12100, Backup)], nextTimerId = 5, now = 7100,
      idleCallbacks = [], page = tweetPage 1, href = ''https://x.com/b'',
      trace = [Console LogInitializing, Console LogInitComplete, Fired 1000 InitialScan,
        Scanned [1], Console (LogFound 1), Fired 1800 NavScan, Scanned [1], Crossed 1,
        Fired 2100 (Click 1), Clicked 1, Console LogExpanded, Fired 7100 Backup, Scanned [],
        Crossed 1]\<rparr>"
  by (simp add: onceState_def model_defs example_defs Let_def)

theorem at_most_once_witness:
  "count_list (trace onceState) (Clicked 1) = 1
   \<and> 1 \<in> processedButtons onceState
   \<and> candidates onceState = []
   \<and> processButton 1 onceState = onceState"
  using at_most_once[of onceSession False "tweetPage 1" "''https://x.com/a''" 1 onceState "[]",
      folded onceState_def]
  unfolding onceState_eq
  by (simp add: candidates_def model_defs example_defs Let_def)

subsection \<open>No activation before a crossing\<close>

text \<open>
  The invariant behind claim C2: in the trace every activation comes after a crossing of
  the same element, and every click timer in the table belongs to an element that has
  crossed.
\<close>

lemma orderly_snoc:
  "orderly (tr @ [x]) = (orderly tr \<and> (\<forall>e. x = Clicked e \<longrightarrow> Crossed e \<in> set tr))"
proof
  assume o: "orderly (tr @ [x])"
  have "orderly tr" unfolding orderly_def
  proof (intro allI impI)
    fix xs ys e
    assume "tr = xs @ Clicked e # ys"
    then have "tr @ [x] = xs @ Clicked e # (ys @ [x])" by simp
    with o show "Crossed e \<in> set xs" unfolding orderly_def by blast
  qed
  moreover have "\<forall>e. x = Clicked e \<longrightarrow> Crossed e \<in> set tr"
  proof (intro allI impI)
    fix e
    assume "x = Clicked e"
    then have "tr @ [x] = tr @ Clicked e # []" by simp
    with o show "Crossed e \<in> set tr" unfolding orderly_def by blast
  qed
  ultimately show "orderly tr \<and> (\<forall>e. x = Clicked e \<longrightarrow> Crossed e \<in> set tr)" by simp
next
  assume a: "orderly tr \<and> (\<forall>e. x = Clicked e \<longrightarrow> Crossed e \<in> set tr)"
  show "orderly (tr @ [x])" unfolding orderly_def
  proof (intro allI impI)
    fix xs ys e
    assume eq: "tr @ [x] = xs @ Clicked e # ys"
    show "Crossed e \<in> set xs"
    proof (cases ys rule: rev_cases)
      case Nil
      with eq have "tr = xs" "x = Clicked e" by simp_all
      with a show ?thesis by simp
    next
      case (snoc ys' y)
      with eq have "tr @ [x] = (xs @ Clicked e # ys') @ [y]" by simp
      then have "tr = xs @ Clicked e # ys'" by (simp only: append1_eq_conv)
      with a show ?thesis unfolding orderly_def by blast
    qed
  qed
qed

lemma orderly_append:
  "orderly tr \<Longrightarrow> (\<forall>e. Clicked e \<in> set ext \<longrightarrow> Crossed e \<in> set tr) \<Longrightarrow> orderly (tr @ ext)"
proof (induction ext rule: rev_induct)
  case Nil
  then show ?case by simp
next
  case (snoc x ext)
  have "orderly (tr @ ext)" using snoc by simp
  moreover have "\<forall>e. x = Clicked e \<longrightarrow> Crossed e \<in> set (tr @ ext)" using snoc.prems(2) by simp
  ultimately have "orderly ((tr @ ext) @ [x])" by (simp only: orderly_snoc simp_thms)
  then show ?case by simp
qed

lemma gateInv_ext:
  assumes "gateInv s" and "trace s' = trace s @ ext"
    and "\<forall>e. Clicked e \<in> set ext \<longrightarrow> Crossed e \<in> set (trace s)"
    and "\<forall>t \<in> set (timers s'). \<forall>b. snd (snd t) = Click b \<longrightarrow>
           t \<in> set (timers s) \<or> Crossed b \<in> set (trace s')"
  shows "gateInv s'"
proof -
  from assms(1) have o: "orderly (trace s)"
    and t: "\<forall>t \<in> set (timers s). \<forall>b. snd (snd t) = Click b \<longrightarrow> Crossed b \<in> set (trace s)"
    by (simp_all add: gateInv_def)
  have "orderly (trace s')" unfolding assms(2) by (rule orderly_append[OF o assms(3)])
  moreover have "\<forall>t \<in> set (timers s'). \<forall>b. snd (snd t) = Click b \<longrightarrow> Crossed b \<in> set (trace s')"
  proof (intro ballI allI impI)
    fix u b
    assume u: "u \<in> set (timers s')" "snd (snd u) = Click b"
    with assms(4) have "u \<in> set (timers s) \<or> Crossed b \<in> set (trace s')" by blast
    then show "Crossed b \<in> set (trace s')"
    proof
      assume "u \<in> set (timers s)"
      with t u(2) have "Crossed b \<in> set (trace s)" by blast
      then show ?thesis by (simp add: assms(2))
    qed
  qed
  ultimately show ?thesis by (simp add: gateInv_def)
qed

lemma gateInv_cong:
  "trace s' = trace s \<Longrightarrow> timers s' = timers s \<Longrightarrow> gateInv s' = gateInv s"
  by (simp add: gateInv_def)

lemma gateInv_processButton:
  assumes "gateInv s" "Crossed b \<in> set (trace s)"
  shows "gateInv (processButton b s)"
proof (rule gateInv_ext[OF assms(1), where ext = "[]"])
  show "trace (processButton b s) = trace s @ []" by (simp add: processButton_frame)
  show "\<forall>e. Clicked e \<in> set [] \<longrightarrow> Crossed e \<in> set (trace s)" by simp
  show "\<forall>t \<in> set (timers (processButton b s)). \<forall>c. snd (snd t) = Click c \<longrightarrow>
           t \<in> set (timers s) \<or> Crossed c \<in> set (trace (processButton b s))"
    using processButton_cases[of b s] assms(2) by (auto simp: processButton_frame)
qed

lemma gateInv_onEntry:
  assumes "gateInv s"
  shows "gateInv (onEntry en s)"
proof -
  let ?s0 = "emit (Crossed (target en)) s"
  let ?s1 = "?s0\<lparr>pendingButtons := removeAll (target en) (pendingButtons s)\<rparr>"
  have s0: "gateInv ?s0"
    by (rule gateInv_ext[OF assms, where ext = "[Crossed (target en)]"]) (simp_all add: emit_def)
  have "gateInv ?s1 = gateInv ?s0" by (rule gateInv_cong) simp_all
  with s0 have "gateInv ?s1" by simp
  moreover have "Crossed (target en) \<in> set (trace ?s1)" by (simp add: emit_def)
  ultimately have "gateInv (processButton (target en) ?s1)" by (rule gateInv_processButton)
  with s0 assms show ?thesis unfolding onEntry_eq by simp
qed

lemma gateInv_intersectionCallback:
  "gateInv s \<Longrightarrow> gateInv (intersectionCallback es s)"
  unfolding intersectionCallback_def
  by (induction es arbitrary: s) (simp_all add: gateInv_onEntry)

lemma gateInv_debouncedExpand:
  assumes "gateInv s"
  shows "gateInv (debouncedExpand s)"
  by (rule gateInv_ext[OF assms, where ext = "[]"])
    (auto simp: debouncedExpand_frame debouncedExpand_timers)

lemma gateInv_handleNavigation:
  assumes "gateInv s"
  shows "gateInv (handleNavigation s)"
  using handleNavigation_cases[of s]
proof
  assume "handleNavigation s = s"
  with assms show ?thesis by simp
next
  assume a: "timers (handleNavigation s) = timers s @ [(nextTimerId s, now s + navigationDelay, NavScan)]
      \<and> nextTimerId (handleNavigation s) = Suc (nextTimerId s)"
  show ?thesis
    by (rule gateInv_ext[OF assms, where ext = "[]"]) (auto simp: handleNavigation_frame a)
qed

lemma gateInv_initialize:
  assumes "gateInv s"
  shows "gateInv (initialize s)"
  by (rule gateInv_ext[OF assms, where ext = "[Console LogInitializing, Console LogInitComplete]"])
    (auto simp: initialize_effect)

lemma gateInv_cleanup:
  assumes "gateInv s"
  shows "gateInv (cleanup s)"
  by (rule gateInv_ext[OF assms, where ext = "[]"]) (auto simp: cleanup_frame)

lemma runCallback_clicks:
  "Clicked e \<in> set (drop (length (trace s)) (trace (runCallback cb s))) \<Longrightarrow> cb = Click e"
  by (cases cb) (auto simp: runCallback_trace split: if_splits)

lemma gateInv_fireTimer:
  assumes "gateInv s"
  shows "gateInv (fireTimer i s)"
  using fireTimer_cases[of i s]
proof
  assume "fireTimer i s = s"
  with assms show ?thesis by simp
next
  assume "\<exists>due cb. (i, due, cb) \<in> set (timers s) \<and> due \<le> now s
        \<and> fireTimer i s =
            runCallback cb (emit (Fired (now s) cb)
              (s\<lparr>timers := filter (\<lambda>t. fst t \<noteq> i) (timers s)
                     @ (if cb = Backup then [(i, now s + backupPeriod, Backup)] else [])\<rparr>))"
  then obtain due cb where m: "(i, due, cb) \<in> set (timers s)"
    and f: "fireTimer i s =
            runCallback cb (emit (Fired (now s) cb)
              (s\<lparr>timers := filter (\<lambda>t. fst t \<noteq> i) (timers s)
                     @ (if cb = Backup then [(i, now s + backupPeriod, Backup)] else [])\<rparr>))"
    by blast
  let ?s2 = "emit (Fired (now s) cb)
              (s\<lparr>timers := filter (\<lambda>t. fst t \<noteq> i) (timers s)
                     @ (if cb = Backup then [(i, now s + backupPeriod, Backup)] else [])\<rparr>)"
  let ?ext = "drop (length (trace ?s2)) (trace (runCallback cb ?s2))"
  have tr2: "trace ?s2 = trace s @ [Fired (now s) cb]" by (simp add: emit_def)
  have tr: "trace (runCallback cb ?s2) = trace ?s2 @ ?ext"
    by (cases cb) (simp_all add: runCallback_trace)
  have tm: "timers (runCallback cb ?s2) = filter (\<lambda>t. fst t \<noteq> i) (timers s)
                     @ (if cb = Backup then [(i, now s + backupPeriod, Backup)] else [])"
    by (simp add: runCallback_frame emit_def)
  show ?thesis unfolding f
  proof (rule gateInv_ext[OF assms, where ext = "Fired (now s) cb # ?ext"])
    show "trace (runCallback cb ?s2) = trace s @ Fired (now s) cb # ?ext"
      using tr tr2 by simp
    show "\<forall>e. Clicked e \<in> set (Fired (now s) cb # ?ext) \<longrightarrow> Crossed e \<in> set (trace s)"
    proof (intro allI impI)
      fix e
      assume "Clicked e \<in> set (Fired (now s) cb # ?ext)"
      then have "Clicked e \<in> set ?ext" by simp
      then have "cb = Click e" by (rule runCallback_clicks)
      with m assms show "Crossed e \<in> set (trace s)" unfolding gateInv_def by force
    qed
    show "\<forall>t \<in> set (timers (runCallback cb ?s2)). \<forall>b. snd (snd t) = Click b \<longrightarrow>
           t \<in> set (timers s) \<or> Crossed b \<in> set (trace (runCallback cb ?s2))"
      unfolding tm by auto
  qed
qed

lemma gateInv_step:
  assumes "gateInv s"
  shows "gateInv (step ev s)"
proof (cases ev)
  case DOMContentLoaded
  have "gateInv (s\<lparr>awaitingReady := False\<rparr>) = gateInv s" by (rule gateInv_cong) simp_all
  with assms have "gateInv (initialize (s\<lparr>awaitingReady := False\<rparr>))"
    by (simp add: gateInv_initialize)
  with assms DOMContentLoaded show ?thesis by simp
next
  case (MutationRecords ms)
  from mutationCallback_cases[of ms s] assms have "gateInv (mutationCallback ms s)"
    by (auto simp: gateInv_debouncedExpand)
  with assms MutationRecords show ?thesis by simp
next
  case BodyChildList
  with assms show ?thesis by (simp add: gateInv_handleNavigation)
next
  case (IntersectionEntries es)
  with assms show ?thesis
    by (simp add: gateInv_intersectionCallback split: option.split list.split)
next
  case IdlePeriod
  show ?thesis
  proof (cases "idleCallbacks s")
    case Nil
    with assms IdlePeriod show ?thesis by simp
  next
    case (Cons b bs)
    have "gateInv (processFunction b (s\<lparr>idleCallbacks := bs\<rparr>)) = gateInv s"
      by (rule gateInv_cong) (simp_all add: processFunction_frame)
    with assms IdlePeriod Cons show ?thesis by simp
  qed
next
  case (TimerFires i)
  with assms show ?thesis by (simp add: gateInv_fireTimer)
next
  case BeforeUnload
  with assms show ?thesis by (simp add: gateInv_cleanup)
next
  case (SetDocument d)
  have "gateInv (s\<lparr>page := d\<rparr>) = gateInv s" by (rule gateInv_cong) simp_all
  with assms SetDocument show ?thesis by simp
next
  case (SetLocation u)
  have "gateInv (s\<lparr>href := u\<rparr>) = gateInv s" by (rule gateInv_cong) simp_all
  with assms SetLocation show ?thesis by simp
next
  case (Advance d)
  have "gateInv (s\<lparr>now := now s + d\<rparr>) = gateInv s" by (rule gateInv_cong) simp_all
  with assms Advance show ?thesis by simp
qed

lemma gateInv_run: "gateInv s \<Longrightarrow> gateInv (run evs s)"
  unfolding run_def by (induction evs arbitrary: s) (simp_all add: gateInv_step)

lemma gateInv_boot: "gateInv (boot loading d url)"
proof (cases loading)
  case True
  then show ?thesis by (simp add: boot_def gateInv_def orderly_def)
next
  case False
  have "gateInv (initialize \<lparr>processedButtons = {}, pendingButtons = [], debounceTimer = None,
                isProcessing = False, observer = None, intersectionObserver = None,
                currentUrl = url, navObserver = False, awaitingReady = loading,
                timers = [], nextTimerId = 1, now = 0, idleCallbacks = [],
                page = d, href = url, trace = []\<rparr>)"
    by (rule gateInv_initialize) (simp add: gateInv_def orderly_def)
  with False show ?thesis by (simp add: boot_def)
qed


lemma crossed_onEntry:
  "Crossed e \<in> set (trace (onEntry en s)) \<Longrightarrow>
   Crossed e \<in> set (trace s) \<or> (target en = e \<and> isIntersecting en)"
  unfolding onEntry_eq by (auto simp: processButton_frame emit_def split: if_splits)

lemma crossed_intersectionCallback:
  "Crossed e \<in> set (trace (intersectionCallback es s)) \<Longrightarrow>
   Crossed e \<in> set (trace s) \<or> (\<exists>en \<in> set es. target en = e \<and> isIntersecting en)"
  unfolding intersectionCallback_def
proof (induction es arbitrary: s)
  case Nil
  then show ?case by simp
next
  case (Cons en es)
  from Cons.prems have "Crossed e \<in> set (trace (fold onEntry es (onEntry en s)))" by simp
  from Cons.IH[OF this] show ?case
  proof
    assume "Crossed e \<in> set (trace (onEntry en s))"
    from crossed_onEntry[OF this] show ?thesis by auto
  next
    assume "\<exists>en \<in> set es. target en = e \<and> isIntersecting en"
    then show ?thesis by auto
  qed
qed

lemma crossed_fireTimer:
  assumes "Crossed e \<in> set (trace (fireTimer i s))"
  shows "Crossed e \<in> set (trace s)"
  using fireTimer_cases[of i s]
proof
  assume "fireTimer i s = s"
  with assms show ?thesis by simp
next
  assume "\<exists>due cb. (i, due, cb) \<in> set (timers s) \<and> due \<le> now s
        \<and> fireTimer i s =
            runCallback cb (emit (Fired (now s) cb)
              (s\<lparr>timers := filter (\<lambda>t. fst t \<noteq> i) (timers s)
                     @ (if cb = Backup then [(i, now s + backupPeriod, Backup)] else [])\<rparr>))"
  then obtain cb where f: "fireTimer i s =
            runCallback cb (emit (Fired (now s) cb)
              (s\<lparr>timers := filter (\<lambda>t. fst t \<noteq> i) (timers s)
                     @ (if cb = Backup then [(i, now s + backupPeriod, Backup)] else [])\<rparr>))"
    by blast
  from assms show ?thesis unfolding f
    by (cases cb) (simp_all add: runCallback_trace emit_def split: if_splits)
qed

lemma crossed_step:
  assumes "Crossed e \<in> set (trace (step ev s))" and "Crossed e \<notin> set (trace s)"
  shows "\<exists>es T. ev = IntersectionEntries es \<and> intersectionObserver s = Some T \<and> e \<in> T
           \<and> list_ex (\<lambda>en. target en = e \<and> isIntersecting en) es"
proof (cases ev)
  case DOMContentLoaded
  with assms show ?thesis by (simp add: initialize_effect split: if_splits)
next
  case (MutationRecords ms)
  with assms mutationCallback_cases[of ms s] show ?thesis
    by (auto simp: debouncedExpand_frame split: if_splits)
next
  case BodyChildList
  with assms show ?thesis by (simp add: handleNavigation_frame split: if_splits)
next
  case (IntersectionEntries es)
  show ?thesis
  proof (cases "intersectionObserver s")
    case None
    with assms IntersectionEntries show ?thesis by simp
  next
    case (Some T)
    let ?es = "filter (\<lambda>en. target en \<in> T) es"
    have "step ev s = s \<or> step ev s = intersectionCallback ?es s"
      using IntersectionEntries Some by (simp split: list.split)
    with assms have "Crossed e \<in> set (trace (intersectionCallback ?es s))" by auto
    from crossed_intersectionCallback[OF this] assms(2)
    obtain en where "en \<in> set ?es" "target en = e" "isIntersecting en" by blast
    then have "e \<in> T" "list_ex (\<lambda>en. target en = e \<and> isIntersecting en) es"
      by (auto simp: list_ex_iff)
    with IntersectionEntries Some show ?thesis by simp
  qed
next
  case IdlePeriod
  with assms show ?thesis by (simp add: processFunction_frame split: list.splits)
next
  case (TimerFires i)
  with assms crossed_fireTimer[of e i s] show ?thesis by simp
next
  case BeforeUnload
  with assms show ?thesis by (simp add: cleanup_frame)
next
  case (SetDocument d)
  with assms show ?thesis by simp
next
  case (SetLocation u)
  with assms show ?thesis by simp
next
  case (Advance d)
  with assms show ?thesis by simp
qed

text \<open>
  Claim C2. In every session each activation of an element is preceded by a crossing of
  that element, and a crossing is recorded only when the intersection callback receives,
  for a target the observer is subscribed to, an entry with isIntersecting true.
\<close>

theorem no_premature_action:
  "(trace (run evs (boot loading d url)) = xs @ Clicked e # ys \<longrightarrow> Crossed e \<in> set xs)
   \<and> (Crossed e \<in> set (trace (step ev s)) \<and> Crossed e \<notin> set (trace s) \<longrightarrow>
        (\<exists>es T. ev = IntersectionEntries es \<and> intersectionObserver s = Some T \<and> e \<in> T
           \<and> list_ex (\<lambda>en. target en = e \<and> isIntersecting en) es))"
proof (intro conjI impI)
  assume eq: "trace (run evs (boot loading d url)) = xs @ Clicked e # ys"
  have "gateInv (run evs (boot loading d url))" by (rule gateInv_run[OF gateInv_boot])
  then have "orderly (trace (run evs (boot loading d url)))" by (simp add: gateInv_def)
  with eq show "Crossed e \<in> set xs" unfolding orderly_def by blast
next
  assume "Crossed e \<in> set (trace (step ev s)) \<and> Crossed e \<notin> set (trace s)"
  then show "\<exists>es T. ev = IntersectionEntries es \<and> intersectionObserver s = Some T \<and> e \<in> T
           \<and> list_ex (\<lambda>en. target en = e \<and> isIntersecting en) es"
    using crossed_step by blast
qed

text \<open>
  In the session of the single click, the crossing of button 1 comes before its
  activation, and it is recorded by the step that delivers the entry to the callback.
\<close>

theorem no_premature_action_witness:
  "trace onceState =
     [Console LogInitializing, Console LogInitComplete, Fired 1000 InitialScan,
      Scanned [1], Console (LogFound 1), Fired 1800 NavScan, Scanned [1], Crossed 1,
      Fired 2100 (Click 1)]
     @ Clicked 1 # [Console LogExpanded, Fired 7100 Backup, Scanned [], Crossed 1]
   \<and> Crossed 1 \<in> set (trace (step (IntersectionEntries [crossing 1]) pendingState))
   \<and> Crossed 1 \<notin> set (trace pendingState)
   \<and> intersectionObserver pendingState = Some {1}"
  using no_premature_action[of onceSession False "tweetPage 1" "''https://x.com/a''"
      "[Console LogInitializing, Console LogInitComplete, Fired 1000 InitialScan,
        Scanned [1], Console (LogFound 1), Fired 1800 NavScan, Scanned [1], Crossed 1,
        Fired 2100 (Click 1)]" 1
      "[Console LogExpanded, Fired 7100 Backup, Scanned [], Crossed 1]"
      "IntersectionEntries [crossing 1]" pendingState, folded onceState_def]
  unfolding onceState_eq pendingState_eq
  by (simp add: model_defs example_defs Let_def)

subsection \<open>The pending set\<close>

lemma admittedState_eq:
  "admittedState =
     \<lparr>processedButtons = {}, pendingButtons = [], debounceTimer = None,
      isProcessing = True, observer = Some True, intersectionObserver = Some {},
      currentUrl = ''https://x.com/a'', navObserver = True, awaitingReady = False,
      timers = [(2, 5000, Backup)], nextTimerId = 3, now = 1000,
      idleCallbacks = [[1]], page = tweetPage 1, href = ''https://x.com/a'',
      trace = [Console LogInitializing, Console LogInitComplete, Fired 1000 InitialScan,
        Scanned [1], Console (LogFound 1)]\<rparr>"
  by (simp add: admittedState_def model_defs example_defs Let_def)

lemma guardedState_eq:
  "guardedState =
     \<lparr>processedButtons = {}, pendingButtons = [1], debounceTimer = None,
      isProcessing = True, observer = Some True, intersectionObserver = Some {},
      currentUrl = ''https://x.com/b'', navObserver = True, awaitingReady = False,
      timers = [(2, 5000, Backup)], nextTimerId = 4, now = 1800,
      idleCallbacks = [[1]], page = tweetPage 1, href = ''https://x.com/b'',
      trace = [Console LogInitializing, Console LogInitComplete, Fired 1000 InitialScan,
        Scanned [1], Console (LogFound 1), Fired 1800 NavScan, Scanned [1]]\<rparr>"
  unfolding guardedState_def admittedState_eq
  by (simp add: model_defs example_defs Let_def)

text \<open>
  Claim C10, as stated, fails: when the navigation rescan runs while the admission of the
  initial scan is still in flight, processPendingButtons returns at its guard and the
  pending set keeps button 1.
\<close>

theorem pending_not_cleared_counterexample:
  "isProcessing guardedState
   \<and> pendingButtons guardedState = [1]
   \<and> pendingButtons (processPendingButtons guardedState) = [1]"
  unfolding guardedState_eq by (simp add: processPendingButtons_def)

text \<open>
  The invariant behind the amended claim, relative to a starting point of the trace:
  every pending element, and every element that entered the registry since, was accepted
  by a scan that ran after the starting point.
\<close>

lemma scannedSince_ext:
  assumes "trace s' = trace s @ ext" "n \<le> length (trace s)"
  shows "scannedSince n s' = scannedSince n s \<union> {e. \<exists>cs. Scanned cs \<in> set ext \<and> e \<in> set cs}"
  using assms by (auto simp: scannedSince_def)

lemma rescanInv_ext:
  assumes "rescanInv n P s" and "trace s' = trace s @ ext"
    and "set (pendingButtons s') \<subseteq>
           set (pendingButtons s) \<union> {e. \<exists>cs. Scanned cs \<in> set ext \<and> e \<in> set cs}"
    and "processedButtons s' \<subseteq> processedButtons s \<union> set (pendingButtons s)"
  shows "rescanInv n P s'"
proof -
  from assms(1) have n: "n \<le> length (trace s)"
    and i: "set (pendingButtons s) \<union> (processedButtons s - P) \<subseteq> scannedSince n s"
    by (simp_all add: rescanInv_def)
  have e: "scannedSince n s' = scannedSince n s \<union> {e. \<exists>cs. Scanned cs \<in> set ext \<and> e \<in> set cs}"
    by (rule scannedSince_ext[OF assms(2) n])
  have "set (pendingButtons s') \<union> (processedButtons s' - P) \<subseteq> scannedSince n s'"
    unfolding e using i assms(3,4) by blast
  moreover have "n \<le> length (trace s')" using n assms(2) by simp
  ultimately show ?thesis by (simp add: rescanInv_def)
qed

lemma rescanInv_cong:
  "trace s' = trace s \<Longrightarrow> pendingButtons s' = pendingButtons s
   \<Longrightarrow> processedButtons s' = processedButtons s \<Longrightarrow> rescanInv n P s' = rescanInv n P s"
  by (simp add: rescanInv_def scannedSince_def)

lemma rescanInv_onEntry:
  assumes "rescanInv n P s"
  shows "rescanInv n P (onEntry en s)"
proof (cases "isIntersecting en")
  case False
  with assms show ?thesis by (simp add: onEntry_eq)
next
  case True
  let ?s1 = "(emit (Crossed (target en)) s)\<lparr>pendingButtons := removeAll (target en) (pendingButtons s)\<rparr>"
  show ?thesis
  proof (rule rescanInv_ext[OF assms, where ext = "[Crossed (target en)]"])
    show "trace (onEntry en s) = trace s @ [Crossed (target en)]"
      using True by (simp add: onEntry_eq processButton_frame emit_def)
    show "set (pendingButtons (onEntry en s)) \<subseteq>
           set (pendingButtons s) \<union> {e. \<exists>cs. Scanned cs \<in> set [Crossed (target en)] \<and> e \<in> set cs}"
      using True by (auto simp: onEntry_eq processButton_frame emit_def)
    from processButton_cases[of "target en" ?s1]
    have "processedButtons (processButton (target en) ?s1) \<subseteq> insert (target en) (processedButtons s)"
      by (auto simp: emit_def)
    then show "processedButtons (onEntry en s) \<subseteq> processedButtons s \<union> set (pendingButtons s)"
      using True by (auto simp: onEntry_eq emit_def)
  qed
qed

lemma rescanInv_intersectionCallback:
  "rescanInv n P s \<Longrightarrow> rescanInv n P (intersectionCallback es s)"
  unfolding intersectionCallback_def
  by (induction es arbitrary: s) (simp_all add: rescanInv_onEntry)

lemma rescanInv_findNewButtons:
  assumes "rescanInv n P s"
  shows "rescanInv n P (snd (findNewButtons s))"
proof (rule rescanInv_ext[OF assms, where ext = "[Scanned (candidates s)]"])
  show "trace (snd (findNewButtons s)) = trace s @ [Scanned (candidates s)]"
    by (rule findNewButtons_frame)
  show "set (pendingButtons (snd (findNewButtons s))) \<subseteq>
           set (pendingButtons s) \<union> {e. \<exists>cs. Scanned cs \<in> set [Scanned (candidates s)] \<and> e \<in> set cs}"
    using findNewButtons_pending[of s] by auto
  show "processedButtons (snd (findNewButtons s)) \<subseteq> processedButtons s \<union> set (pendingButtons s)"
    by (simp add: findNewButtons_frame)
qed

lemma rescanInv_emit:
  assumes "rescanInv n P s"
  shows "rescanInv n P (emit x s)"
  by (rule rescanInv_ext[OF assms, where ext = "[x]"]) (simp_all add: emit_def)

lemma rescanInv_backupCallback:
  assumes "rescanInv n P s"
  shows "rescanInv n P (backupCallback s)"
proof (rule rescanInv_ext[OF assms, where ext = "[Scanned (candidates s)]"])
  show "trace (backupCallback s) = trace s @ [Scanned (candidates s)]"
    by (rule backupCallback_trace)
  show "set (pendingButtons (backupCallback s)) \<subseteq>
           set (pendingButtons s) \<union> {e. \<exists>cs. Scanned cs \<in> set [Scanned (candidates s)] \<and> e \<in> set cs}"
    using backupCallback_pending[of s] by auto
  show "processedButtons (backupCallback s) \<subseteq> processedButtons s \<union> set (pendingButtons s)"
    by (simp add: backupCallback_frame)
qed

lemma rescanInv_clickCallback:
  assumes "rescanInv n P s"
  shows "rescanInv n P (clickCallback b s)"
  by (rule rescanInv_ext[OF assms clickCallback_trace]) (simp_all add: clickCallback_frame)

lemma rescanInv_runCallback:
  assumes "rescanInv n P s"
  shows "rescanInv n P (runCallback cb s)"
proof (cases cb)
  case InitialScan
  have "runCallback cb s = emit (Console (LogFound (fst (findNewButtons s)))) (snd (findNewButtons s))"
    using InitialScan by (simp add: runCallback_def split: prod.split)
  then show ?thesis using assms by (simp add: rescanInv_emit rescanInv_findNewButtons)
next
  case DebounceScan
  then show ?thesis using assms by (simp add: runCallback_def rescanInv_findNewButtons)
next
  case NavScan
  then show ?thesis using assms by (simp add: runCallback_def rescanInv_findNewButtons)
next
  case (Click b)
  then show ?thesis using assms by (simp add: runCallback_def rescanInv_clickCallback)
next
  case Backup
  then show ?thesis using assms by (simp add: runCallback_def rescanInv_backupCallback)
qed

lemma rescanInv_fireTimer:
  assumes "rescanInv n P s"
  shows "rescanInv n P (fireTimer i s)"
  using fireTimer_cases[of i s]
proof
  assume "fireTimer i s = s"
  with assms show ?thesis by simp
next
  assume "\<exists>due cb. (i, due, cb) \<in> set (timers s) \<and> due \<le> now s
        \<and> fireTimer i s =
            runCallback cb (emit (Fired (now s) cb)
              (s\<lparr>timers := filter (\<lambda>t. fst t \<noteq> i) (timers s)
                     @ (if cb = Backup then [(i, now s + backupPeriod, Backup)] else [])\<rparr>))"
  then obtain cb where f: "fireTimer i s =
            runCallback cb (emit (Fired (now s) cb)
              (s\<lparr>timers := filter (\<lambda>t. fst t \<noteq> i) (timers s)
                     @ (if cb = Backup then [(i, now s + backupPeriod, Backup)] else [])\<rparr>))"
    by blast
  let ?s1 = "s\<lparr>timers := filter (\<lambda>t. fst t \<noteq> i) (timers s)
                     @ (if cb = Backup then [(i, now s + backupPeriod, Backup)] else [])\<rparr>"
  have "rescanInv n P ?s1 = rescanInv n P s" by (rule rescanInv_cong) simp_all
  with assms have "rescanInv n P (emit (Fired (now s) cb) ?s1)" by (simp add: rescanInv_emit)
  then show ?thesis unfolding f by (rule rescanInv_runCallback)
qed

lemma rescanInv_step:
  assumes "rescanInv n P s"
  shows "rescanInv n P (step ev s)"
proof (cases ev)
  case DOMContentLoaded
  have "rescanInv n P (initialize (s\<lparr>awaitingReady := False\<rparr>))"
    by (rule rescanInv_ext[OF assms, where ext = "[Console LogInitializing, Console LogInitComplete]"])
      (simp_all add: initialize_effect)
  with assms DOMContentLoaded show ?thesis by simp
next
  case (MutationRecords ms)
  have "rescanInv n P (debouncedExpand s) = rescanInv n P s"
    by (rule rescanInv_cong) (simp_all add: debouncedExpand_frame)
  with mutationCallback_cases[of ms s] assms have "rescanInv n P (mutationCallback ms s)" by auto
  with assms MutationRecords show ?thesis by simp
next
  case BodyChildList
  have "rescanInv n P (handleNavigation s) = rescanInv n P s"
    by (rule rescanInv_cong) (simp_all add: handleNavigation_frame)
  with assms BodyChildList show ?thesis by simp
next
  case (IntersectionEntries es)
  with assms show ?thesis
    by (simp add: rescanInv_intersectionCallback split: option.split list.split)
next
  case IdlePeriod
  show ?thesis
  proof (cases "idleCallbacks s")
    case Nil
    with assms IdlePeriod show ?thesis by simp
  next
    case (Cons b bs)
    have "rescanInv n P (processFunction b (s\<lparr>idleCallbacks := bs\<rparr>)) = rescanInv n P s"
      by (rule rescanInv_cong) (simp_all add: processFunction_frame)
    with assms IdlePeriod Cons show ?thesis by simp
  qed
next
  case (TimerFires i)
  with assms show ?thesis by (simp add: rescanInv_fireTimer)
next
  case BeforeUnload
  have "rescanInv n P (cleanup s) = rescanInv n P s"
    by (rule rescanInv_cong) (simp_all add: cleanup_frame)
  with assms BeforeUnload show ?thesis by simp
next
  case (SetDocument d)
  have "rescanInv n P (s\<lparr>page := d\<rparr>) = rescanInv n P s" by (rule rescanInv_cong) simp_all
  with assms SetDocument show ?thesis by simp
next
  case (SetLocation u)
  have "rescanInv n P (s\<lparr>href := u\<rparr>) = rescanInv n P s" by (rule rescanInv_cong) simp_all
  with assms SetLocation show ?thesis by simp
next
  case (Advance d)
  have "rescanInv n P (s\<lparr>now := now s + d\<rparr>) = rescanInv n P s" by (rule rescanInv_cong) simp_all
  with assms Advance show ?thesis by simp
qed

lemma rescanInv_run: "rescanInv n P s \<Longrightarrow> rescanInv n P (run evs s)"
  unfolding run_def by (induction evs arbitrary: s) (simp_all add: rescanInv_step)

text \<open>
  Claim C10, amended. processPendingButtons, run with no admission in flight, empties the
  pending set, the admitted batch included, and queues the first five; run while an
  admission is in flight it changes nothing. The intersection callback dispatches nothing
  for an element that is not pending. Hence, from a state with an empty pending set, an
  element enters the registry only if a later scan has accepted it.
\<close>

theorem pending_cleared_unless_processing:
  "(\<not> isProcessing s \<longrightarrow>
      pendingButtons (processPendingButtons s) = []
    \<and> idleCallbacks (processPendingButtons s) = idleCallbacks s @ [take 5 (pendingButtons s)])
   \<and> (isProcessing s \<longrightarrow> processPendingButtons s = s)
   \<and> (target en \<notin> set (pendingButtons s) \<longrightarrow>
        processedButtons (onEntry en s) = processedButtons s \<and> timers (onEntry en s) = timers s)
   \<and> (pendingButtons s = [] \<and> e \<notin> processedButtons s \<and> e \<in> processedButtons (run evs s) \<longrightarrow>
        (\<exists>cs. Scanned cs \<in> set (drop (length (trace s)) (trace (run evs s))) \<and> e \<in> set cs))"
proof (intro conjI impI)
  assume "\<not> isProcessing s"
  then show "pendingButtons (processPendingButtons s) = []"
    and "idleCallbacks (processPendingButtons s) = idleCallbacks s @ [take 5 (pendingButtons s)]"
    by (simp_all add: processPendingButtons_def maxProcessPerBatch_def)
next
  assume "isProcessing s"
  then show "processPendingButtons s = s" by (simp add: processPendingButtons_def)
next
  assume "target en \<notin> set (pendingButtons s)"
  then show "processedButtons (onEntry en s) = processedButtons s"
    and "timers (onEntry en s) = timers s"
    by (simp_all add: onEntry_eq emit_def)
next
  assume a: "pendingButtons s = [] \<and> e \<notin> processedButtons s \<and> e \<in> processedButtons (run evs s)"
  then have "rescanInv (length (trace s)) (processedButtons s) s" by (simp add: rescanInv_def)
  then have "rescanInv (length (trace s)) (processedButtons s) (run evs s)" by (rule rescanInv_run)
  with a have "e \<in> scannedSince (length (trace s)) (run evs s)"
    unfolding rescanInv_def by blast
  then show "\<exists>cs. Scanned cs \<in> set (drop (length (trace s)) (trace (run evs s))) \<and> e \<in> set cs"
    by (simp add: scannedSince_def)
qed

text \<open>
  After the initial scan the pending set is empty and button 1 is not in the registry; it
  is dispatched later, and the navigation rescan that accepted it lies in between.
\<close>

lemma laterState_eq: "run laterEvents admittedState = releasedState"
  unfolding admittedState_eq releasedState_eq
  by (simp add: model_defs example_defs Let_def)

theorem pending_cleared_witness:
  "pendingButtons admittedState = []
   \<and> 1 \<notin> processedButtons admittedState
   \<and> 1 \<in> processedButtons (run laterEvents admittedState)
   \<and> Scanned [1] \<in> set (drop (length (trace admittedState)) (trace (run laterEvents admittedState)))
   \<and> isProcessing guardedState \<and> processPendingButtons guardedState = guardedState
   \<and> pendingButtons (processPendingButtons sevenState) = []"
  using pending_cleared_unless_processing[of admittedState "crossing 1" 1 laterEvents]
    pending_cleared_unless_processing[of guardedState "crossing 1" 1 "[]"]
    pending_cleared_unless_processing[of sevenState "crossing 1" 1 "[]"]
  unfolding laterState_eq
  unfolding admittedState_eq releasedState_eq guardedState_eq sevenState_eq
  by (simp add: processPendingButtons_def)

subsection \<open>The timer table stays well formed\<close>

lemma debounceInv_cong:
  "timers s' = timers s \<Longrightarrow> nextTimerId s' = nextTimerId s \<Longrightarrow> debounceTimer s' = debounceTimer s
   \<Longrightarrow> debounceInv s' = debounceInv s"
  by (simp add: debounceInv_def)

lemma debounceInv_filter:
  assumes "debounceInv s" "timers s' = filter Q (timers s)" "nextTimerId s' = nextTimerId s"
    "debounceTimer s' = debounceTimer s"
  shows "debounceInv s'"
  using assms unfolding debounceInv_def by (auto simp: distinct_map_filter)

lemma debounceInv_add:
  assumes "debounceInv s" "timers s' = filter Q (timers s) @ [(nextTimerId s, due, cb)]"
    "nextTimerId s' = Suc (nextTimerId s)" "debounceTimer s' = debounceTimer s" "cb \<noteq> DebounceScan"
  shows "debounceInv s'"
proof -
  from assms(1) have d: "distinct (map fst (timers s))"
    and b: "\<forall>t \<in> set (timers s). fst t < nextTimerId s
            \<and> ((snd (snd t) = DebounceScan) = (debounceTimer s = Some (fst t)))"
    and h: "\<forall>i. debounceTimer s = Some i \<longrightarrow> i < nextTimerId s"
    by (simp_all add: debounceInv_def)
  have "nextTimerId s \<notin> fst ` set (filter Q (timers s))" using b by auto
  with d have "distinct (map fst (timers s'))"
    unfolding assms(2) by (simp add: distinct_map_filter)
  moreover have "\<forall>t \<in> set (timers s'). fst t < nextTimerId s'
            \<and> ((snd (snd t) = DebounceScan) = (debounceTimer s' = Some (fst t)))"
    unfolding assms(2,3,4) using b h assms(5) by (auto simp: less_Suc_eq)
  moreover have "\<forall>i. debounceTimer s' = Some i \<longrightarrow> i < nextTimerId s'"
    unfolding assms(3,4) using h by (auto simp: less_Suc_eq)
  ultimately show ?thesis by (simp add: debounceInv_def)
qed

lemma debounceInv_debouncedExpand:
  assumes "debounceInv s"
  shows "debounceInv (debouncedExpand s)"
proof -
  from assms have d: "distinct (map fst (timers s))"
    and b: "\<forall>t \<in> set (timers s). fst t < nextTimerId s
            \<and> ((snd (snd t) = DebounceScan) = (debounceTimer s = Some (fst t)))"
    by (simp_all add: debounceInv_def)
  let ?ts = "filter (\<lambda>t. Some (fst t) \<noteq> debounceTimer s) (timers s)"
  have "nextTimerId s \<notin> fst ` set ?ts" using b by auto
  with d have d1: "distinct (map fst (?ts @ [(nextTimerId s, now s + debounceDelay, DebounceScan)]))"
    by (simp add: distinct_map_filter)
  have b1: "\<forall>t \<in> set (?ts @ [(nextTimerId s, now s + debounceDelay, DebounceScan)]).
      fst t < Suc (nextTimerId s)
      \<and> ((snd (snd t) = DebounceScan) = (Some (nextTimerId s) = Some (fst t)))"
    using b by (auto simp: less_Suc_eq)
  have h1: "\<forall>i. Some (nextTimerId s) = Some i \<longrightarrow> i < Suc (nextTimerId s)" by simp
  show ?thesis
    unfolding debounceInv_def debouncedExpand_timers debouncedExpand_frame
    by (rule conjI[OF d1 conjI[OF b1 h1]])
qed

lemma debounceInv_processButton:
  assumes "debounceInv s"
  shows "debounceInv (processButton b s)"
proof -
  from processButton_cases[of b s] consider
    (same) "processButton b s = s"
  | (kept) "timers (processButton b s) = timers s" "nextTimerId (processButton b s) = nextTimerId s"
  | (added) "timers (processButton b s) = timers s @ [(nextTimerId s, now s + clickDelay, Click b)]"
      "nextTimerId (processButton b s) = Suc (nextTimerId s)"
    by blast
  then show ?thesis
  proof cases
    case same
    with assms show ?thesis by simp
  next
    case kept
    have "debounceInv (processButton b s) = debounceInv s"
      by (rule debounceInv_cong) (simp_all add: kept processButton_frame)
    with assms show ?thesis by simp
  next
    case added
    have "timers (processButton b s) = filter (\<lambda>t. True) (timers s) @ [(nextTimerId s, now s + clickDelay, Click b)]"
      using added(1) by simp
    from debounceInv_add[OF assms this added(2)] show ?thesis by (simp add: processButton_frame)
  qed
qed

lemma debounceInv_onEntry:
  assumes "debounceInv s"
  shows "debounceInv (onEntry en s)"
proof -
  let ?s0 = "emit (Crossed (target en)) s"
  let ?s1 = "?s0\<lparr>pendingButtons := removeAll (target en) (pendingButtons s)\<rparr>"
  have "debounceInv ?s0 = debounceInv s" by (rule debounceInv_cong) (simp_all add: emit_def)
  with assms have s0: "debounceInv ?s0" by simp
  have "debounceInv ?s1 = debounceInv ?s0" by (rule debounceInv_cong) simp_all
  with s0 have "debounceInv ?s1" by simp
  then have "debounceInv (processButton (target en) ?s1)" by (rule debounceInv_processButton)
  with s0 assms show ?thesis unfolding onEntry_eq by simp
qed

lemma debounceInv_intersectionCallback:
  "debounceInv s \<Longrightarrow> debounceInv (intersectionCallback es s)"
  unfolding intersectionCallback_def
  by (induction es arbitrary: s) (simp_all add: debounceInv_onEntry)

lemma debounceInv_handleNavigation:
  assumes "debounceInv s"
  shows "debounceInv (handleNavigation s)"
  using handleNavigation_cases[of s]
proof
  assume "handleNavigation s = s"
  with assms show ?thesis by simp
next
  assume a: "timers (handleNavigation s) = timers s @ [(nextTimerId s, now s + navigationDelay, NavScan)]
      \<and> nextTimerId (handleNavigation s) = Suc (nextTimerId s)"
  then have "timers (handleNavigation s) =
      filter (\<lambda>t. True) (timers s) @ [(nextTimerId s, now s + navigationDelay, NavScan)]" by simp
  from debounceInv_add[OF assms this conjunct2[OF a]] show ?thesis
    by (simp add: handleNavigation_frame)
qed

lemma debounceInv_initialize:
  assumes "debounceInv s"
  shows "debounceInv (initialize s)"
proof -
  let ?s1 = "s\<lparr>timers := timers s @ [(nextTimerId s, now s + initialScanDelay, InitialScan)],
               nextTimerId := Suc (nextTimerId s)\<rparr>"
  have "debounceInv ?s1"
    by (rule debounceInv_add[OF assms, where Q = "\<lambda>t. True" and cb = InitialScan]) simp_all
  moreover have "timers (initialize s) =
      filter (\<lambda>t. True) (timers ?s1) @ [(nextTimerId ?s1, now s + backupPeriod, Backup)]"
    by (simp add: initialize_effect)
  ultimately show ?thesis
    by (rule debounceInv_add) (simp_all add: initialize_effect)
qed

lemma debounceInv_cleanup:
  assumes "debounceInv s"
  shows "debounceInv (cleanup s)"
  by (rule debounceInv_filter[OF assms]) (simp_all add: cleanup_frame)

lemma debounceInv_fireTimer:
  assumes "debounceInv s"
  shows "debounceInv (fireTimer i s)"
  using fireTimer_cases[of i s]
proof
  assume "fireTimer i s = s"
  with assms show ?thesis by simp
next
  assume "\<exists>due cb. (i, due, cb) \<in> set (timers s) \<and> due \<le> now s
        \<and> fireTimer i s =
            runCallback cb (emit (Fired (now s) cb)
              (s\<lparr>timers := filter (\<lambda>t. fst t \<noteq> i) (timers s)
                     @ (if cb = Backup then [(i, now s + backupPeriod, Backup)] else [])\<rparr>))"
  then obtain due cb where m: "(i, due, cb) \<in> set (timers s)"
    and f: "fireTimer i s =
            runCallback cb (emit (Fired (now s) cb)
              (s\<lparr>timers := filter (\<lambda>t. fst t \<noteq> i) (timers s)
                     @ (if cb = Backup then [(i, now s + backupPeriod, Backup)] else [])\<rparr>))"
    by blast
  from assms have d: "distinct (map fst (timers s))"
    and b: "\<forall>t \<in> set (timers s). fst t < nextTimerId s
            \<and> ((snd (snd t) = DebounceScan) = (debounceTimer s = Some (fst t)))"
    and h: "\<forall>i. debounceTimer s = Some i \<longrightarrow> i < nextTimerId s"
    by (simp_all add: debounceInv_def)
  let ?ts = "filter (\<lambda>t. fst t \<noteq> i) (timers s)
                     @ (if cb = Backup then [(i, now s + backupPeriod, Backup)] else [])"
  have "i \<notin> fst ` set (filter (\<lambda>t. fst t \<noteq> i) (timers s))" by auto
  with d have d': "distinct (map fst ?ts)" by (simp add: distinct_map_filter)
  from m b have mi: "i < nextTimerId s"
    and mc: "(cb = DebounceScan) = (debounceTimer s = Some i)" by force+
  have b': "\<forall>t \<in> set ?ts. fst t < nextTimerId s
            \<and> ((snd (snd t) = DebounceScan) = (debounceTimer s = Some (fst t)))"
    using b mi mc by auto
  have "debounceInv (fireTimer i s) = debounceInv (s\<lparr>timers := ?ts\<rparr>)"
    unfolding f by (rule debounceInv_cong) (simp_all add: runCallback_frame emit_def)
  also have "\<dots>" using d' b' h by (simp add: debounceInv_def)
  finally show ?thesis .
qed

lemma debounceInv_step:
  assumes "debounceInv s"
  shows "debounceInv (step ev s)"
proof (cases ev)
  case DOMContentLoaded
  have "debounceInv (s\<lparr>awaitingReady := False\<rparr>) = debounceInv s" by (rule debounceInv_cong) simp_all
  with assms have "debounceInv (initialize (s\<lparr>awaitingReady := False\<rparr>))"
    by (simp add: debounceInv_initialize)
  with assms DOMContentLoaded show ?thesis by simp
next
  case (MutationRecords ms)
  from mutationCallback_cases[of ms s] assms have "debounceInv (mutationCallback ms s)"
    by (auto simp: debounceInv_debouncedExpand)
  with assms MutationRecords show ?thesis by simp
next
  case BodyChildList
  with assms show ?thesis by (simp add: debounceInv_handleNavigation)
next
  case (IntersectionEntries es)
  with assms show ?thesis
    by (simp add: debounceInv_intersectionCallback split: option.split list.split)
next
  case IdlePeriod
  show ?thesis
  proof (cases "idleCallbacks s")
    case Nil
    with assms IdlePeriod show ?thesis by simp
  next
    case (Cons b bs)
    have "debounceInv (processFunction b (s\<lparr>idleCallbacks := bs\<rparr>)) = debounceInv s"
      by (rule debounceInv_cong) (simp_all add: processFunction_frame)
    with assms IdlePeriod Cons show ?thesis by simp
  qed
next
  case (TimerFires i)
  with assms show ?thesis by (simp add: debounceInv_fireTimer)
next
  case BeforeUnload
  with assms show ?thesis by (simp add: debounceInv_cleanup)
next
  case (SetDocument d)
  have "debounceInv (s\<lparr>page := d\<rparr>) = debounceInv s" by (rule debounceInv_cong) simp_all
  with assms SetDocument show ?thesis by simp
next
  case (SetLocation u)
  have "debounceInv (s\<lparr>href := u\<rparr>) = debounceInv s" by (rule debounceInv_cong) simp_all
  with assms SetLocation show ?thesis by simp
next
  case (Advance d)
  have "debounceInv (s\<lparr>now := now s + d\<rparr>) = debounceInv s" by (rule debounceInv_cong) simp_all
  with assms Advance show ?thesis by simp
qed

lemma debounceInv_run: "debounceInv s \<Longrightarrow> debounceInv (run evs s)"
  unfolding run_def by (induction evs arbitrary: s) (simp_all add: debounceInv_step)

lemma debounceInv_boot: "debounceInv (boot loading d url)"
proof (cases loading)
  case True
  then show ?thesis by (simp add: boot_def debounceInv_def)
next
  case False
  have "debounceInv (initialize \<lparr>processedButtons = {}, pendingButtons = [], debounceTimer = None,
                isProcessing = False, observer = None, intersectionObserver = None,
                currentUrl = url, navObserver = False, awaitingReady = loading,
                timers = [], nextTimerId = 1, now = 0, idleCallbacks = [],
                page = d, href = url, trace = []\<rparr>)"
    by (rule debounceInv_initialize) (simp add: debounceInv_def)
  with False show ?thesis by (simp add: boot_def)
qed

lemma debounce_at_most_one:
  assumes "debounceInv s"
  shows "length (filter isDebounceTimer (timers s)) \<le> 1"
proof -
  let ?xs = "map fst (filter isDebounceTimer (timers s))"
  from assms have d: "distinct (map fst (timers s))"
    and b: "\<forall>t \<in> set (timers s). (snd (snd t) = DebounceScan) = (debounceTimer s = Some (fst t))"
    by (simp_all add: debounceInv_def)
  have dx: "distinct ?xs" using d by (simp add: distinct_map_filter)
  have "set ?xs \<subseteq> set_option (debounceTimer s)"
    using b by (auto simp: isDebounceTimer_def)
  then have "card (set ?xs) \<le> card (set_option (debounceTimer s))"
    by (rule card_mono[rotated]) simp
  also have "\<dots> \<le> 1" by (cases "debounceTimer s") simp_all
  finally have "card (set ?xs) \<le> 1" .
  moreover have "length ?xs = card (set ?xs)" using dx by (rule distinct_card[symmetric])
  ultimately have "length ?xs \<le> 1" by linarith
  then show ?thesis by (simp only: length_map)
qed

subsection \<open>Debounce coalescing\<close>

lemma find_distinct_id:
  "distinct (map fst ts) \<Longrightarrow> (i, due, cb) \<in> set ts \<Longrightarrow>
   find (\<lambda>t. fst t = i) ts = Some (i, due, cb)"
proof (induction ts)
  case Nil
  then show ?case by simp
next
  case (Cons t ts)
  show ?case
  proof (cases "fst t = i")
    case True
    with Cons.prems have "t = (i, due, cb)" by (cases t) force
    then show ?thesis by simp
  next
    case False
    with Cons show ?thesis by auto
  qed
qed

lemma filter_remove_id:
  assumes "distinct (map fst ts)" "(i, due, cb) \<in> set ts"
  shows "filter P (filter (\<lambda>t. fst t \<noteq> i) ts) = filter P (filter (\<lambda>t. t \<noteq> (i, due, cb)) ts)"
proof -
  have "\<forall>t \<in> set ts. (fst t \<noteq> i) = (t \<noteq> (i, due, cb))"
  proof
    fix t assume t: "t \<in> set ts"
    show "(fst t \<noteq> i) = (t \<noteq> (i, due, cb))"
    proof (cases "fst t = i")
      case True
      from assms(1) t assms(2) True have "t = (i, due, cb)"
        by (metis eq_key_imp_eq_value fst_conv prod.collapse)
      with True show ?thesis by simp
    next
      case False
      then show ?thesis by auto
    qed
  qed
  then have "filter (\<lambda>t. fst t \<noteq> i) ts = filter (\<lambda>t. t \<noteq> (i, due, cb)) ts"
    by (simp cong: filter_cong)
  then show ?thesis by simp
qed

lemma filter_debounce_remove_other:
  assumes "distinct (map fst ts)" "(i, due, cb) \<in> set ts" "cb \<noteq> DebounceScan"
  shows "filter isDebounceTimer (filter (\<lambda>t. fst t \<noteq> i) ts) = filter isDebounceTimer ts"
proof -
  have "filter isDebounceTimer (filter (\<lambda>t. fst t \<noteq> i) ts)
      = filter isDebounceTimer (filter (\<lambda>t. t \<noteq> (i, due, cb)) ts)"
    by (rule filter_remove_id[OF assms(1,2)])
  also have "\<dots> = filter (\<lambda>t. isDebounceTimer t \<and> t \<noteq> (i, due, cb)) ts"
    by (simp add: conj_commute)
  also have "\<dots> = filter isDebounceTimer ts"
    using assms(3) by (intro filter_cong) (auto simp: isDebounceTimer_def)
  finally show ?thesis .
qed

lemma runCallback_debounceFirings:
  "debounceFirings (runCallback cb s) = debounceFirings s"
  by (cases cb) (simp_all add: debounceFirings_def runCallback_trace isDebounceFiring_def)

text \<open>Firing a timer that is not a due debounce timer leaves the debouncer alone.\<close>

lemma fire_other:
  assumes "debounceInv s"
    and "\<forall>t \<in> set (timers s). isDebounceTimer t \<longrightarrow> now s < fst (snd t) \<or> fst t \<noteq> j"
  shows "debounceInv (fireTimer j s)
       \<and> filter isDebounceTimer (timers (fireTimer j s)) = filter isDebounceTimer (timers s)
       \<and> debounceFirings (fireTimer j s) = debounceFirings s
       \<and> now (fireTimer j s) = now s"
  using fireTimer_cases[of j s]
proof
  assume "fireTimer j s = s"
  with assms(1) show ?thesis by simp
next
  assume "\<exists>due cb. (j, due, cb) \<in> set (timers s) \<and> due \<le> now s
        \<and> fireTimer j s =
            runCallback cb (emit (Fired (now s) cb)
              (s\<lparr>timers := filter (\<lambda>t. fst t \<noteq> j) (timers s)
                     @ (if cb = Backup then [(j, now s + backupPeriod, Backup)] else [])\<rparr>))"
  then obtain due cb where m: "(j, due, cb) \<in> set (timers s)" and due: "due \<le> now s"
    and f: "fireTimer j s =
            runCallback cb (emit (Fired (now s) cb)
              (s\<lparr>timers := filter (\<lambda>t. fst t \<noteq> j) (timers s)
                     @ (if cb = Backup then [(j, now s + backupPeriod, Backup)] else [])\<rparr>))"
    by blast
  from assms(2) m due have cb: "cb \<noteq> DebounceScan" by (force simp: isDebounceTimer_def)
  from assms(1) have d: "distinct (map fst (timers s))" by (simp add: debounceInv_def)
  have "filter isDebounceTimer (timers (fireTimer j s))
      = filter isDebounceTimer (filter (\<lambda>t. fst t \<noteq> j) (timers s))"
    unfolding f by (simp add: runCallback_frame emit_def isDebounceTimer_def)
  also have "\<dots> = filter isDebounceTimer (timers s)"
    by (rule filter_debounce_remove_other[OF d m cb])
  finally have t: "filter isDebounceTimer (timers (fireTimer j s)) = filter isDebounceTimer (timers s)" .
  have fr: "debounceFirings (fireTimer j s) = debounceFirings s"
    unfolding f runCallback_debounceFirings using cb
    by (simp add: debounceFirings_def emit_def isDebounceFiring_def)
  have n: "now (fireTimer j s) = now s" unfolding f by (simp add: runCallback_frame emit_def)
  from debounceInv_fireTimer[OF assms(1)] t fr n show ?thesis by simp
qed

lemma fold_fire_other:
  assumes "debounceInv s"
    and "\<forall>t \<in> set (timers s). isDebounceTimer t \<longrightarrow> now s < fst (snd t) \<or> fst t \<notin> set js"
  shows "debounceInv (fold fireTimer js s)
       \<and> filter isDebounceTimer (timers (fold fireTimer js s)) = filter isDebounceTimer (timers s)
       \<and> debounceFirings (fold fireTimer js s) = debounceFirings s
       \<and> now (fold fireTimer js s) = now s"
  using assms
proof (induction js arbitrary: s)
  case Nil
  then show ?case by simp
next
  case (Cons j js)
  have "\<forall>t \<in> set (timers s). isDebounceTimer t \<longrightarrow> now s < fst (snd t) \<or> fst t \<noteq> j"
    using Cons.prems(2) by auto
  from fire_other[OF Cons.prems(1) this]
  have 1: "debounceInv (fireTimer j s)"
    and 2: "filter isDebounceTimer (timers (fireTimer j s)) = filter isDebounceTimer (timers s)"
    and 3: "debounceFirings (fireTimer j s) = debounceFirings s"
    and 4: "now (fireTimer j s) = now s" by simp_all
  have "set (filter isDebounceTimer (timers (fireTimer j s))) = set (filter isDebounceTimer (timers s))"
    by (simp only: 2)
  then have "\<forall>t \<in> set (timers (fireTimer j s)). isDebounceTimer t \<longrightarrow>
      now (fireTimer j s) < fst (snd t) \<or> fst t \<notin> set js"
    using Cons.prems(2) unfolding 4 by auto
  from Cons.IH[OF 1 this] show ?case using 2 3 4 by simp
qed

lemma tick_quiet:
  assumes "debounceInv s"
    and "\<forall>t \<in> set (timers s). isDebounceTimer t \<longrightarrow> Suc (now s) < fst (snd t)"
  shows "debounceInv (tick s)
       \<and> filter isDebounceTimer (timers (tick s)) = filter isDebounceTimer (timers s)
       \<and> debounceFirings (tick s) = debounceFirings s
       \<and> now (tick s) = Suc (now s)"
proof -
  let ?s1 = "s\<lparr>now := Suc (now s)\<rparr>"
  have "debounceInv ?s1 = debounceInv s" by (rule debounceInv_cong) simp_all
  with assms(1) have i: "debounceInv ?s1" by simp
  have "\<forall>t \<in> set (timers ?s1). isDebounceTimer t \<longrightarrow>
      now ?s1 < fst (snd t) \<or> fst t \<notin> set (dueIds ?s1)"
    using assms(2) by simp
  from fold_fire_other[OF i this] show ?thesis
    by (simp add: tick_def Let_def debounceFirings_def)
qed

lemma elapse_quiet:
  assumes "debounceInv s"
    and "\<forall>t \<in> set (timers s). isDebounceTimer t \<longrightarrow> now s + k < fst (snd t)"
  shows "debounceInv (elapse k s)
       \<and> filter isDebounceTimer (timers (elapse k s)) = filter isDebounceTimer (timers s)
       \<and> debounceFirings (elapse k s) = debounceFirings s
       \<and> now (elapse k s) = now s + k"
  using assms
proof (induction k arbitrary: s)
  case 0
  then show ?case by simp
next
  case (Suc k)
  have "\<forall>t \<in> set (timers s). isDebounceTimer t \<longrightarrow> Suc (now s) < fst (snd t)"
    using Suc.prems(2) by auto
  from tick_quiet[OF Suc.prems(1) this]
  have 1: "debounceInv (tick s)"
    and 2: "filter isDebounceTimer (timers (tick s)) = filter isDebounceTimer (timers s)"
    and 3: "debounceFirings (tick s) = debounceFirings s"
    and 4: "now (tick s) = Suc (now s)" by simp_all
  have "set (filter isDebounceTimer (timers (tick s))) = set (filter isDebounceTimer (timers s))"
    by (simp only: 2)
  then have "\<forall>t \<in> set (timers (tick s)). isDebounceTimer t \<longrightarrow> now (tick s) + k < fst (snd t)"
    using Suc.prems(2) unfolding 4 by auto
  from Suc.IH[OF 1 this] show ?case using 2 3 4 by simp
qed


lemma no_debounce_timer_iff:
  "(filter isDebounceTimer ts = []) = (\<forall>t \<in> set ts. \<not> isDebounceTimer t)"
  by (simp add: filter_empty_conv)

lemma filter_single:
  assumes "filter P ts = [x]" "t \<in> set ts" "P t"
  shows "t = x"
proof -
  from assms(2,3) have "t \<in> set (filter P ts)" by simp
  then show ?thesis unfolding assms(1) by simp
qed

lemma fire_debounce:
  assumes "debounceInv s" and "filter isDebounceTimer (timers s) = [(i, D, DebounceScan)]"
    and "D \<le> now s"
  shows "debounceInv (fireTimer i s)
       \<and> filter isDebounceTimer (timers (fireTimer i s)) = []
       \<and> debounceFirings (fireTimer i s) = debounceFirings s @ [Fired (now s) DebounceScan]
       \<and> now (fireTimer i s) = now s"
proof -
  from assms(1) have d: "distinct (map fst (timers s))" by (simp add: debounceInv_def)
  have "(i, D, DebounceScan) \<in> set (filter isDebounceTimer (timers s))"
    by (simp only: assms(2)) simp
  then have m: "(i, D, DebounceScan) \<in> set (timers s)" by simp
  have fnd: "find (\<lambda>t. fst t = i) (timers s) = Some (i, D, DebounceScan)"
    by (rule find_distinct_id[OF d m])
  let ?s2 = "emit (Fired (now s) DebounceScan) (s\<lparr>timers := filter (\<lambda>t. fst t \<noteq> i) (timers s)\<rparr>)"
  have f: "fireTimer i s = runCallback DebounceScan ?s2"
    using fnd assms(3) by (simp add: fireTimer_def Let_def)
  have "filter isDebounceTimer (filter (\<lambda>t. fst t \<noteq> i) (timers s))
      = filter isDebounceTimer (filter (\<lambda>t. t \<noteq> (i, D, DebounceScan)) (timers s))"
    by (rule filter_remove_id[OF d m])
  also have "\<dots> = filter (\<lambda>t. t \<noteq> (i, D, DebounceScan)) (filter isDebounceTimer (timers s))"
    by (simp add: conj_commute)
  also have "\<dots> = []" by (simp only: assms(2)) simp
  finally have e: "filter isDebounceTimer (filter (\<lambda>t. fst t \<noteq> i) (timers s)) = []" .
  have t: "filter isDebounceTimer (timers (fireTimer i s)) = []"
    unfolding f using e by (simp add: runCallback_frame emit_def)
  have fr: "debounceFirings (fireTimer i s) = debounceFirings s @ [Fired (now s) DebounceScan]"
    unfolding f runCallback_debounceFirings
    by (simp add: debounceFirings_def emit_def isDebounceFiring_def)
  have n: "now (fireTimer i s) = now s" unfolding f by (simp add: runCallback_frame emit_def)
  from debounceInv_fireTimer[OF assms(1)] t fr n show ?thesis by simp
qed

lemma tick_at:
  assumes "debounceInv s"
    and "filter isDebounceTimer (timers s) = [(i, Suc (now s), DebounceScan)]"
  shows "debounceInv (tick s)
       \<and> filter isDebounceTimer (timers (tick s)) = []
       \<and> debounceFirings (tick s) = debounceFirings s @ [Fired (Suc (now s)) DebounceScan]
       \<and> now (tick s) = Suc (now s)"
proof -
  let ?s1 = "s\<lparr>now := Suc (now s)\<rparr>"
  have "debounceInv ?s1 = debounceInv s" by (rule debounceInv_cong) simp_all
  with assms(1) have i1: "debounceInv ?s1" by simp
  have e1: "filter isDebounceTimer (timers ?s1) = [(i, Suc (now s), DebounceScan)]"
    using assms(2) by simp
  have f1: "debounceFirings ?s1 = debounceFirings s" by (simp add: debounceFirings_def)
  from assms(1) have d: "distinct (map fst (timers s))" by (simp add: debounceInv_def)
  have "(i, Suc (now s), DebounceScan) \<in> set (filter isDebounceTimer (timers s))"
    by (simp only: assms(2)) simp
  then have m: "(i, Suc (now s), DebounceScan) \<in> set (timers s)" by simp
  then have "i \<in> set (dueIds ?s1)" by (force simp: dueIds_def)
  then obtain pre post where sp: "dueIds ?s1 = pre @ i # post" by (auto dest: split_list)
  have "distinct (dueIds ?s1)" using d by (simp add: dueIds_def distinct_map_filter)
  with sp have ni: "i \<notin> set pre" "i \<notin> set post" by auto
  have only: "\<And>u t. filter isDebounceTimer (timers u) = [(i, Suc (now s), DebounceScan)] \<Longrightarrow>
      t \<in> set (timers u) \<Longrightarrow> isDebounceTimer t \<Longrightarrow> fst t = i"
    by (drule (2) filter_single) simp
  let ?s2 = "fold fireTimer pre ?s1"
  have "\<forall>t \<in> set (timers ?s1). isDebounceTimer t \<longrightarrow> now ?s1 < fst (snd t) \<or> fst t \<notin> set pre"
    using only[OF e1] ni(1) by blast
  from fold_fire_other[OF i1 this]
  have i2: "debounceInv ?s2"
    and e2: "filter isDebounceTimer (timers ?s2) = [(i, Suc (now s), DebounceScan)]"
    and f2: "debounceFirings ?s2 = debounceFirings s"
    and n2: "now ?s2 = Suc (now s)"
    using e1 f1 by simp_all
  let ?s3 = "fireTimer i ?s2"
  have "Suc (now s) \<le> now ?s2" using n2 by simp
  from fire_debounce[OF i2 e2 this]
  have i3: "debounceInv ?s3"
    and e3: "filter isDebounceTimer (timers ?s3) = []"
    and f3: "debounceFirings ?s3 = debounceFirings s @ [Fired (Suc (now s)) DebounceScan]"
    and n3: "now ?s3 = Suc (now s)"
    using f2 n2 by simp_all
  have "\<forall>t \<in> set (timers ?s3). isDebounceTimer t \<longrightarrow> now ?s3 < fst (snd t) \<or> fst t \<notin> set post"
    using e3 by (simp add: no_debounce_timer_iff)
  from fold_fire_other[OF i3 this]
  have "debounceInv (fold fireTimer post ?s3)
       \<and> filter isDebounceTimer (timers (fold fireTimer post ?s3)) = []
       \<and> debounceFirings (fold fireTimer post ?s3) = debounceFirings s @ [Fired (Suc (now s)) DebounceScan]
       \<and> now (fold fireTimer post ?s3) = Suc (now s)"
    using e3 f3 n3 by simp
  moreover have "tick s = fold fireTimer post ?s3"
    by (simp add: tick_def Let_def sp)
  ultimately show ?thesis by simp
qed

lemma elapse_Suc_end: "elapse (Suc n) s = tick (elapse n s)"
  by (induction n arbitrary: s) simp_all

text \<open>A signal leaves exactly one debounced rescan scheduled, a quiet period ahead.\<close>

lemma debouncedExpand_armed:
  assumes "debounceInv s"
  shows "filter isDebounceTimer (timers (debouncedExpand s)) =
           [(nextTimerId s, now s + debounceDelay, DebounceScan)]"
proof -
  from assms have b: "\<forall>t \<in> set (timers s). (snd (snd t) = DebounceScan) = (debounceTimer s = Some (fst t))"
    by (simp add: debounceInv_def)
  have "filter isDebounceTimer (filter (\<lambda>t. Some (fst t) \<noteq> debounceTimer s) (timers s)) = []"
    using b by (auto simp: filter_empty_conv isDebounceTimer_def)
  then show ?thesis by (simp add: debouncedExpand_timers isDebounceTimer_def)
qed

lemma burst_armed:
  assumes "debounceInv s" and "\<forall>g \<in> set gs. g < debounceDelay"
  shows "debounceInv (burst gs s)
       \<and> (\<exists>i. filter isDebounceTimer (timers (burst gs s)) =
                [(i, now s + sum_list gs + debounceDelay, DebounceScan)])
       \<and> debounceFirings (burst gs s) = debounceFirings s
       \<and> now (burst gs s) = now s + sum_list gs"
  using assms
proof (induction gs arbitrary: s)
  case Nil
  show ?case
    using debounceInv_debouncedExpand[OF Nil(1)] debouncedExpand_armed[OF Nil(1)]
    by (simp add: debouncedExpand_frame debounceFirings_def)
next
  case (Cons g gs)
  let ?s1 = "debouncedExpand s"
  have i1: "debounceInv ?s1" by (rule debounceInv_debouncedExpand[OF Cons.prems(1)])
  have e1: "filter isDebounceTimer (timers ?s1) = [(nextTimerId s, now s + debounceDelay, DebounceScan)]"
    by (rule debouncedExpand_armed[OF Cons.prems(1)])
  have g: "g < debounceDelay" using Cons.prems(2) by simp
  have "\<forall>t \<in> set (timers ?s1). isDebounceTimer t \<longrightarrow> now ?s1 + g < fst (snd t)"
  proof (intro ballI impI)
    fix t assume "t \<in> set (timers ?s1)" "isDebounceTimer t"
    then have "t \<in> set (filter isDebounceTimer (timers ?s1))" by simp
    then have "t = (nextTimerId s, now s + debounceDelay, DebounceScan)" by (simp only: e1) simp
    with g show "now ?s1 + g < fst (snd t)" by (simp add: debouncedExpand_frame)
  qed
  from elapse_quiet[OF i1 this]
  have i2: "debounceInv (elapse g ?s1)"
    and f2: "debounceFirings (elapse g ?s1) = debounceFirings s"
    and n2: "now (elapse g ?s1) = now s + g"
    by (simp_all add: debouncedExpand_frame debounceFirings_def)
  have "\<forall>g \<in> set gs. g < debounceDelay" using Cons.prems(2) by simp
  from Cons.IH[OF i2 this] show ?case using f2 n2 by (simp add: add.assoc)
qed


text \<open>
  Claim C6. On the idealised clock, let N = length gs + 1 signals arrive from a state with
  a well-formed timer table, each less than the quiet period of 200 ms after the one
  before. Then no debounced rescan fires until 200 ms after the last signal, exactly one
  fires at that millisecond, and none is left scheduled afterwards. Each signal leaves
  exactly the rescan it schedules in the table, and in every reachable state the table is
  well formed and holds at most one debounced rescan.
\<close>

theorem debounce_coalescing:
  "(debounceInv s \<and> (\<forall>g \<in> set gs. g < 200) \<longrightarrow>
       debounceFirings (elapse 200 (burst gs s))
         = debounceFirings s @ [Fired (now s + sum_list gs + 200) DebounceScan]
     \<and> (\<forall>k < 200. debounceFirings (elapse k (burst gs s)) = debounceFirings s
            \<and> length (filter isDebounceTimer (timers (elapse k (burst gs s)))) = 1)
     \<and> filter isDebounceTimer (timers (elapse 200 (burst gs s))) = [])
   \<and> (debounceInv s \<longrightarrow>
        filter isDebounceTimer (timers (debouncedExpand s))
          = [(nextTimerId s, now s + 200, DebounceScan)])
   \<and> length (filter isDebounceTimer (timers (run evs (boot loading d url)))) \<le> 1
   \<and> debounceInv (run evs (boot loading d url))"
proof (intro conjI impI allI)
  assume a: "debounceInv s \<and> (\<forall>g \<in> set gs. g < 200)"
  then have inv: "debounceInv s" and gaps: "\<forall>g \<in> set gs. g < debounceDelay"
    by (simp_all add: debounceDelay_def)
  let ?b = "burst gs s"
  from burst_armed[OF inv gaps] obtain i where
    ib: "debounceInv ?b"
    and eb: "filter isDebounceTimer (timers ?b) = [(i, now s + sum_list gs + debounceDelay, DebounceScan)]"
    and fb: "debounceFirings ?b = debounceFirings s"
    and nb: "now ?b = now s + sum_list gs"
    by blast
  have quiet: "\<And>k. k < 200 \<Longrightarrow>
      debounceInv (elapse k ?b)
       \<and> filter isDebounceTimer (timers (elapse k ?b)) = filter isDebounceTimer (timers ?b)
       \<and> debounceFirings (elapse k ?b) = debounceFirings ?b
       \<and> now (elapse k ?b) = now ?b + k"
  proof -
    fix k :: nat assume k: "k < 200"
    have "\<forall>t \<in> set (timers ?b). isDebounceTimer t \<longrightarrow> now ?b + k < fst (snd t)"
    proof (intro ballI impI)
      fix t assume "t \<in> set (timers ?b)" "isDebounceTimer t"
      with eb have "t = (i, now s + sum_list gs + debounceDelay, DebounceScan)"
        by (rule filter_single)
      with k show "now ?b + k < fst (snd t)" by (simp add: nb debounceDelay_def)
    qed
    from elapse_quiet[OF ib this] show "debounceInv (elapse k ?b)
       \<and> filter isDebounceTimer (timers (elapse k ?b)) = filter isDebounceTimer (timers ?b)
       \<and> debounceFirings (elapse k ?b) = debounceFirings ?b
       \<and> now (elapse k ?b) = now ?b + k" .
  qed
  {
    fix k :: nat assume k: "k < 200"
    from quiet[OF k] show "debounceFirings (elapse k ?b) = debounceFirings s" by (simp add: fb)
    from quiet[OF k] show "length (filter isDebounceTimer (timers (elapse k ?b))) = 1"
      by (simp add: eb)
  }
  let ?s199 = "elapse 199 ?b"
  from quiet[of 199] have i9: "debounceInv ?s199"
    and e9: "filter isDebounceTimer (timers ?s199) = [(i, now s + sum_list gs + debounceDelay, DebounceScan)]"
    and f9: "debounceFirings ?s199 = debounceFirings s"
    and n9: "now ?s199 = now s + sum_list gs + 199"
    by (simp_all add: eb fb nb)
  have "filter isDebounceTimer (timers ?s199) = [(i, Suc (now ?s199), DebounceScan)]"
    using e9 n9 by (simp add: debounceDelay_def)
  from tick_at[OF i9 this]
  have t: "filter isDebounceTimer (timers (tick ?s199)) = []"
    and f: "debounceFirings (tick ?s199) = debounceFirings s @ [Fired (now s + sum_list gs + 200) DebounceScan]"
    using f9 n9 by simp_all
  have "elapse 200 ?b = tick ?s199"
    using elapse_Suc_end[of 199 ?b] by simp
  with t f show "debounceFirings (elapse 200 ?b)
         = debounceFirings s @ [Fired (now s + sum_list gs + 200) DebounceScan]"
    and "filter isDebounceTimer (timers (elapse 200 ?b)) = []" by simp_all
next
  assume "debounceInv s"
  from debouncedExpand_armed[OF this]
  show "filter isDebounceTimer (timers (debouncedExpand s))
          = [(nextTimerId s, now s + 200, DebounceScan)]"
    by (simp add: debounceDelay_def)
next
  show inv: "debounceInv (run evs (boot loading d url))"
    by (rule debounceInv_run[OF debounceInv_boot])
  then show "length (filter isDebounceTimer (timers (run evs (boot loading d url)))) \<le> 1"
    by (rule debounce_at_most_one)
qed

text \<open>
  Four signals at 1000, 1050, 1200 and 1399 ms: nothing has fired at 1598 ms, and the one
  rescan fires at 1599 ms.
\<close>

theorem debounce_coalescing_witness:
  "debounceFirings (elapse 200 (burst [50, 150, 199] sevenState)) = [Fired 1599 DebounceScan]
   \<and> debounceFirings (elapse 199 (burst [50, 150, 199] sevenState)) = []"
proof -
  have inv: "debounceInv sevenState \<and> (\<forall>g \<in> set [50, 150, 199::nat]. g < 200)"
    unfolding sevenState_eq by (simp add: debounceInv_def)
  have f0: "debounceFirings sevenState = []"
    unfolding sevenState_eq by (simp add: debounceFirings_def isDebounceFiring_def)
  have n0: "now sevenState = 1000" unfolding sevenState_eq by simp
  have k: "(199::nat) < 200" by simp
  from debounce_coalescing[of sevenState "[50, 150, 199]"] inv
  have "debounceFirings (elapse 200 (burst [50, 150, 199] sevenState))
         = debounceFirings sevenState @ [Fired (now sevenState + sum_list [50, 150, 199] + 200) DebounceScan]"
    and "\<forall>k < 200. debounceFirings (elapse k (burst [50, 150, 199] sevenState)) = debounceFirings sevenState
            \<and> length (filter isDebounceTimer (timers (elapse k (burst [50, 150, 199] sevenState)))) = 1"
    by blast+
  with k show ?thesis unfolding f0 n0 by simp
qed

subsection \<open>Teardown\<close>

























end
